theory Spec2Isabelle
  imports Main
begin

section \<open>Data model of the elements inspector\<close>

text \<open>
  The development embeds \<^verbatim>\<open>src/ui/components/elements-inspector/elements.js\<close>.
  Identities, attribute names and key names are only ever compared, and are
  HOL strings. The texts that the component cuts and lower-cases (the name of
  a node, the value of an attribute, the search query) are JavaScript strings
  proper: lists of UTF-16 code units, each a natural number. Levels and
  indices are integers, as far below \<open>2 ^ 53\<close> as any tree the component can
  hold.

  Names are those of the source. Where two types of the source share a field
  name, or a name is taken in HOL, the field carries a prefix: \<open>eid\<close> is the
  \<^verbatim>\<open>id\<close> of an element, \<open>ekey\<close> the \<^verbatim>\<open>key\<close> of a keyboard event, \<open>attr_name\<close> and
  \<open>attr_value\<close> the \<^verbatim>\<open>name\<close> and \<^verbatim>\<open>value\<close> of an attribute, and the properties of
  a row start with \<open>row_\<close>.
\<close>

type_synonym ElementID = string

type_synonym jsstring = "nat list"

text \<open>The text of a literal, unit by unit.\<close>

definition utf16 :: "string \<Rightarrow> jsstring" where
  "utf16 s = map of_char s"

record ElementAttribute =
  attr_name :: string
  attr_value :: jsstring

text \<open>
  The fields of \<^verbatim>\<open>Element\<close> that the component reads. \<^verbatim>\<open>children\<close> and
  \<^verbatim>\<open>attributes\<close> are optional because the source tests both against
  \<^verbatim>\<open>null\<close> (lines 292, 307 and 470).
\<close>

record Element =
  eid :: ElementID
  name :: jsstring
  expanded :: bool
  children :: "ElementID list option"
  attributes :: "ElementAttribute list option"

record FlatElement =
  key :: ElementID
  element :: Element
  level :: int

record ElementSearchResultSet =
  query :: "jsstring option"
  matches :: "ElementID set"

record ElementsProps =
  root :: "ElementID option"
  selected :: "ElementID option"
  focused :: "ElementID option"
  searchResults :: "ElementSearchResultSet option"
  elements :: "ElementID \<rightharpoonup> Element"
  alternateRowColor :: bool

record ElementsState =
  flatKeys :: "ElementID list"
  flatElements :: "FlatElement list"
  maxDepth :: int

record KeyboardEvent =
  ekey :: string
  metaKey :: bool
  ctrlKey :: bool
  altKey :: bool

text \<open>What a handler does to its collaborators, in the order it does it.\<close>

datatype effect =
    PreventDefault
  | ElementSelected ElementID
  | ElementExpanded ElementID bool
  | ClipboardWriteText jsstring

datatype error = TypeError

section \<open>Built-ins of the language\<close>

text \<open>\<^verbatim>\<open>Array.prototype.indexOf\<close>: the first index holding the value, or \<open>-1\<close>.\<close>

fun indexOf :: "'a list \<Rightarrow> 'a \<Rightarrow> int" where
  "indexOf [] x = - 1"
| "indexOf (y # ys) x =
     (if y = x then 0
      else (let r = indexOf ys x in if r < 0 then - 1 else r + 1))"

text \<open>A string is truthy when it is not empty.\<close>

definition truthy :: "'a list \<Rightarrow> bool" where
  "truthy s = (s \<noteq> [])"

text \<open>
  \<^verbatim>\<open>String.prototype.includes\<close> and \<^verbatim>\<open>String.prototype.indexOf\<close>: whether, and
  where first, the second string occurs in the first.
\<close>

fun str_includes :: "'a list \<Rightarrow> 'a list \<Rightarrow> bool" where
  "str_includes [] sub = (sub = [])"
| "str_includes (c # cs) sub = (take (length sub) (c # cs) = sub \<or> str_includes cs sub)"

fun str_indexOf :: "'a list \<Rightarrow> 'a list \<Rightarrow> int" where
  "str_indexOf [] sub = (if sub = [] then 0 else - 1)"
| "str_indexOf (c # cs) sub =
     (if take (length sub) (c # cs) = sub then 0
      else (let r = str_indexOf cs sub in if r < 0 then - 1 else r + 1))"

text \<open>
  \<^verbatim>\<open>String.prototype.substring\<close>: both indices are clamped to the string, and
  swapped when the first is the larger; without the second index the rest of
  the string is taken.
\<close>

definition clampIndex :: "int \<Rightarrow> nat \<Rightarrow> nat" where
  "clampIndex i n = (if i < 0 then 0 else min (nat i) n)"

definition substring :: "'a list \<Rightarrow> int \<Rightarrow> int \<Rightarrow> 'a list" where
  "substring s a b =
     (let x = clampIndex a (length s); y = clampIndex b (length s);
          lo = min x y; hi = max x y
      in take (hi - lo) (drop lo s))"

definition substringFrom :: "'a list \<Rightarrow> int \<Rightarrow> 'a list" where
  "substringFrom s a = drop (clampIndex a (length s)) s"

text \<open>
  \<^verbatim>\<open>String.prototype.toLowerCase\<close> follows the case tables of Unicode, which
  are no part of the component: wherever the component calls it, the
  embedding takes the function as a parameter named \<open>toLowerCase\<close>. The
  function below is the built-in on the code units that the examples of
  this development use: the letters \<open>A\<close> to \<open>Z\<close> and the capital letters of
  Latin-1 move up by 32, the capital I with a dot above (\<open>U+0130\<close>, unit 304)
  becomes the two units \<open>i\<close> and combining dot above (105 and 775), and a
  unit outside these ranges is kept.
\<close>

definition lowerUnit :: "nat \<Rightarrow> jsstring" where
  "lowerUnit u =
     (if (65 \<le> u \<and> u \<le> 90) \<or> (192 \<le> u \<and> u \<le> 222 \<and> u \<noteq> 215) then [u + 32]
      else if u = 304 then [105, 775]
      else [u])"

definition lowerCase :: "jsstring \<Rightarrow> jsstring" where
  "lowerCase s = concat (map lowerUnit s)"

section \<open>The store object\<close>

text \<open>
  \<^verbatim>\<open>props.elements\<close> is a plain object. A map holds its own properties, which
  are the nodes of the tree store. Reading \<^verbatim>\<open>props.elements[key]\<close>, as lines 454
  and 505 do, also finds what the object inherits from \<^verbatim>\<open>Object.prototype\<close>:
  under one of the twelve names below, an identity without a node of its own
  yields a member of the prototype, which is a function or, under
  \<^verbatim>\<open>__proto__\<close>, the prototype itself. Such a member is truthy. Read as an
  element it has no \<^verbatim>\<open>children\<close>, no \<^verbatim>\<open>expanded\<close>, no \<^verbatim>\<open>attributes\<close> and no
  \<^verbatim>\<open>id\<close>, all of them undefined (the component reads no \<^verbatim>\<open>id\<close> on the paths
  embedded here; the empty identity stands for the undefined one); its
  \<^verbatim>\<open>name\<close> is the name of the function, which is \<open>Object\<close> for the
  constructor and the name of the property for the others, and is undefined,
  here the empty text, for the prototype itself.
\<close>

definition prototypeMembers :: "ElementID list" where
  "prototypeMembers =
     [''constructor'', ''__defineGetter__'', ''__defineSetter__'', ''hasOwnProperty'',
      ''__lookupGetter__'', ''__lookupSetter__'', ''isPrototypeOf'',
      ''propertyIsEnumerable'', ''toString'', ''valueOf'', ''__proto__'',
      ''toLocaleString'']"

definition inherited :: "ElementID \<Rightarrow> Element" where
  "inherited k =
     \<lparr>eid = [],
      name = (if k = ''constructor'' then utf16 ''Object''
              else if k = ''__proto__'' then [] else utf16 k),
      expanded = False, children = None, attributes = None\<rparr>"

definition lookup :: "(ElementID \<rightharpoonup> Element) \<Rightarrow> ElementID \<Rightarrow> Element option" where
  "lookup els k =
     (case els k of
        Some el \<Rightarrow> Some el
      | None \<Rightarrow> if k \<in> set prototypeMembers then Some (inherited k) else None)"

section \<open>The flattener: \<^verbatim>\<open>setProps\<close> and its walk \<^verbatim>\<open>seed\<close>\<close>

text \<open>
  \<^verbatim>\<open>seed\<close> pushes onto the two arrays and raises \<^verbatim>\<open>maxDepth\<close>; the three
  variables of the closure are the state that is passed along. The first
  argument bounds the depth of the recursion: a walk that needs more nested
  calls than that has not returned, which is the value \<open>None\<close>. The loop over
  \<^verbatim>\<open>element.children\<close> is \<open>seed_children\<close>. The parameter \<open>els\<close> holds the own
  properties of \<^verbatim>\<open>props.elements\<close>.
\<close>

fun seed :: "nat \<Rightarrow> (ElementID \<rightharpoonup> Element) \<Rightarrow> ElementID \<Rightarrow> int \<Rightarrow> ElementsState
              \<Rightarrow> ElementsState option"
and seed_children :: "nat \<Rightarrow> (ElementID \<rightharpoonup> Element) \<Rightarrow> ElementID list \<Rightarrow> int
              \<Rightarrow> ElementsState \<Rightarrow> ElementsState option"
where
  "seed 0 els k lvl st = None"
| "seed (Suc n) els k lvl st =
     (case lookup els k of
        None \<Rightarrow> Some st
      | Some el \<Rightarrow>
          (let st1 = st\<lparr>maxDepth := max (maxDepth st) lvl,
                        flatElements := flatElements st @ [\<lparr>key = k, element = el, level = lvl\<rparr>],
                        flatKeys := flatKeys st @ [k]\<rparr>
           in (case children el of
                 None \<Rightarrow> Some st1
               | Some cs \<Rightarrow>
                   if length cs > 0 \<and> expanded el
                   then seed_children n els cs (lvl + 1) st1
                   else Some st1)))"
| "seed_children n els [] lvl st = Some st"
| "seed_children n els (c # cs) lvl st =
     (case seed n els c lvl st of
        None \<Rightarrow> None
      | Some st' \<Rightarrow> seed_children n els cs lvl st')"

definition initialState :: ElementsState where
  "initialState = \<lparr>flatKeys = [], flatElements = [], maxDepth = 0\<rparr>"

definition setProps :: "nat \<Rightarrow> ElementsProps \<Rightarrow> ElementsState option" where
  "setProps n props =
     (case root props of
        None \<Rightarrow> Some initialState
      | Some r \<Rightarrow> seed n (elements props) r 1 initialState)"

section \<open>The navigator: \<^verbatim>\<open>onKeyDown\<close>\<close>

text \<open>
  The backward loop of the \<^verbatim>\<open>ArrowLeft\<close> branch, from index \<open>i\<close> down to \<open>0\<close>:
  the key at the first index met whose row has the target level. An index
  past the end of \<^verbatim>\<open>flatElements\<close> reads \<^verbatim>\<open>undefined\<close>, whose \<^verbatim>\<open>level\<close> throws.
\<close>

fun jumpToParent :: "FlatElement list \<Rightarrow> ElementID list \<Rightarrow> int \<Rightarrow> nat
                       \<Rightarrow> error + ElementID option" where
  "jumpToParent fe fk targetLevel 0 =
     (if 0 < length fe
      then (if level (fe ! 0) = targetLevel
            then (if 0 < length fk then Inr (Some (fk ! 0)) else Inr None)
            else Inr None)
      else Inl TypeError)"
| "jumpToParent fe fk targetLevel (Suc i) =
     (if Suc i < length fe
      then (if level (fe ! Suc i) = targetLevel
            then (if Suc i < length fk then Inr (Some (fk ! Suc i)) else Inr None)
            else jumpToParent fe fk targetLevel i)
      else Inl TypeError)"

text \<open>
  The handler. Its result is the list of effects, or the exception thrown.
  The four arrow blocks are tried in the order of the source; a \<^verbatim>\<open>return\<close>
  inside a block ends the handler with the effects so far.
\<close>

definition onKeyDown :: "string \<Rightarrow> ElementsProps \<Rightarrow> ElementsState \<Rightarrow> KeyboardEvent
                           \<Rightarrow> error + effect list" where
  "onKeyDown platform props st e =
     (case selected props of
        None \<Rightarrow> Inr []
      | Some sel \<Rightarrow>
          (let selectedIndex = indexOf (flatKeys st) sel in
           if selectedIndex < 0 then Inr []
           else
             (case lookup (elements props) sel of
                None \<Rightarrow> Inr []
              | Some selectedElement \<Rightarrow>
                  if ekey e = ''c'' \<and>
                     ((metaKey e \<and> platform = ''darwin'') \<or>
                      (ctrlKey e \<and> platform \<noteq> ''darwin''))
                  then Inr [PreventDefault, ClipboardWriteText (name selectedElement)]
                  else if ekey e = ''ArrowUp'' then
                    (if selectedIndex = 0 \<or> length (flatKeys st) = 1 then Inr []
                     else Inr [PreventDefault,
                               ElementSelected (flatKeys st ! nat (selectedIndex - 1))])
                  else if ekey e = ''ArrowDown'' then
                    (if selectedIndex = int (length (flatKeys st)) - 1 then Inr []
                     else Inr [PreventDefault,
                               ElementSelected (flatKeys st ! nat (selectedIndex + 1))])
                  else if ekey e = ''ArrowLeft'' then
                    (if expanded selectedElement
                     then Inr [PreventDefault, ElementExpanded sel False]
                     else if nat selectedIndex < length (flatElements st) then
                       (case jumpToParent (flatElements st) (flatKeys st)
                               (level (flatElements st ! nat selectedIndex) - 1)
                               (nat selectedIndex) of
                          Inl err \<Rightarrow> Inl err
                        | Inr None \<Rightarrow> Inr [PreventDefault]
                        | Inr (Some parentKey) \<Rightarrow>
                            if truthy parentKey
                            then Inr [PreventDefault, ElementSelected parentKey]
                            else Inr [PreventDefault])
                     else Inl TypeError)
                  else if ekey e = ''ArrowRight'' then
                    (case children selectedElement of
                       None \<Rightarrow> Inl TypeError
                     | Some cs \<Rightarrow>
                         if length cs > 0 then
                           (if expanded selectedElement
                            then Inr [PreventDefault, ElementSelected (cs ! 0)]
                            else Inr [PreventDefault, ElementExpanded sel False])
                         else Inr [])
                  else Inr [])))"

section \<open>The row presenter\<close>

text \<open>
  What \<^verbatim>\<open>PartialHighlight.render\<close> hands to the renderer: the content in one
  piece, or cut in three with the middle piece highlighted. The \<^verbatim>\<open>selected\<close>
  property only picks a colour and is left out.
\<close>

datatype rendered = Whole jsstring | Highlighted jsstring jsstring jsstring

definition PartialHighlight_render :: "(jsstring \<Rightarrow> jsstring) \<Rightarrow> jsstring option \<Rightarrow> jsstring \<Rightarrow> rendered" where
  "PartialHighlight_render toLowerCase highlighted content =
     (case highlighted of
        None \<Rightarrow> Whole content
      | Some h \<Rightarrow>
          if truthy content \<and> h \<noteq> [] \<and>
             str_includes (toLowerCase content) (toLowerCase h)
          then
            (let highlightStart = str_indexOf (toLowerCase content) (toLowerCase h);
                 highlightEnd = highlightStart + int (length h);
                 before = substring content 0 highlightStart;
                 match = substring content highlightStart highlightEnd;
                 after = substringFrom content highlightEnd
             in Highlighted before match after)
          else Whole content)"

text \<open>\<^verbatim>\<open>ElementsRowAttribute.render\<close>: the attribute's name and its rendered value.\<close>

definition ElementsRowAttribute_render :: "(jsstring \<Rightarrow> jsstring) \<Rightarrow> string \<Rightarrow> jsstring \<Rightarrow> jsstring option
                                             \<Rightarrow> string \<times> rendered" where
  "ElementsRowAttribute_render toLowerCase nm v matchingSearchQuery =
     (nm, PartialHighlight_render toLowerCase
            (if nm = ''id'' \<or> nm = ''addr'' then matchingSearchQuery else Some [])
            v)"

text \<open>The properties \<^verbatim>\<open>buildRow\<close> gives to an \<^verbatim>\<open>ElementsRow\<close>.\<close>

record ElementsRowProps =
  row_id :: ElementID
  row_level :: int
  row_selected :: bool
  row_focused :: bool
  row_matchingSearchQuery :: "jsstring option"
  row_isQueryMatch :: bool
  row_element :: Element
  row_even :: bool
  row_childrenCount :: nat

text \<open>
  The part of \<^verbatim>\<open>ElementsRow.render\<close> that carries text: the rendered name and
  the rendered attributes, in their order.
\<close>

record ElementsRowView =
  view_name :: rendered
  view_attributes :: "(string \<times> rendered) list"

definition ElementsRow_render :: "(jsstring \<Rightarrow> jsstring) \<Rightarrow> ElementsRowProps \<Rightarrow> ElementsRowView" where
  "ElementsRow_render toLowerCase rp =
     \<lparr>view_name = PartialHighlight_render toLowerCase (row_matchingSearchQuery rp)
                   (name (row_element rp)),
      view_attributes =
        (case attributes (row_element rp) of
           None \<Rightarrow> []
         | Some attrs \<Rightarrow>
             map (\<lambda>attr. ElementsRowAttribute_render toLowerCase (attr_name attr) (attr_value attr)
                            (row_matchingSearchQuery rp)) attrs)\<rparr>"

definition containsKeyInSearchResults :: "ElementSearchResultSet option \<Rightarrow> ElementID \<Rightarrow> bool" where
  "containsKeyInSearchResults sr k = (case sr of None \<Rightarrow> False | Some r \<Rightarrow> k \<in> matches r)"

text \<open>The counting loop of \<^verbatim>\<open>buildRow\<close>, from index \<open>i\<close> on.\<close>

function countChildren :: "FlatElement list \<Rightarrow> FlatElement \<Rightarrow> nat \<Rightarrow> nat \<Rightarrow> nat" where
  "countChildren fe row i childrenCount =
     (if i < length fe
      then (if level (fe ! i) \<le> level row then childrenCount
            else countChildren fe row (i + 1) (childrenCount + 1))
      else childrenCount)"
  by pat_completeness auto
termination
  by (relation "measure (\<lambda>(fe, row, i, childrenCount). length fe - i)") auto

definition buildRow :: "ElementsProps \<Rightarrow> ElementsState \<Rightarrow> FlatElement \<Rightarrow> nat
                          \<Rightarrow> ElementsRowProps" where
  "buildRow props st row index =
     \<lparr>row_id = key row,
      row_level = level row,
      row_selected = (selected props = Some (key row)),
      row_focused = (focused props = Some (key row)),
      row_matchingSearchQuery =
        (if containsKeyInSearchResults (searchResults props) (key row)
         then query (the (searchResults props)) else None),
      row_isQueryMatch = containsKeyInSearchResults (searchResults props) (key row),
      row_element = element row,
      row_even = (if alternateRowColor props then index mod 2 = 0 else False),
      row_childrenCount = countChildren (flatElements st) row (index + 1) 0\<rparr>"

section \<open>The pre-order traversal, as the specification words it\<close>

text \<open>
  Start at the root with level 1. A visited node appends one row; when it has
  one or more children and its expansion flag is true, each child is walked in
  stored order at the next level. An identity without a node is skipped. The
  parameter \<open>els\<close> says which node an identity yields.
\<close>

definition hasChildren :: "Element \<Rightarrow> bool" where
  "hasChildren el = (case children el of None \<Rightarrow> False | Some cs \<Rightarrow> cs \<noteq> [])"

inductive preorder_walk :: "(ElementID \<rightharpoonup> Element) \<Rightarrow> ElementID \<Rightarrow> int
                              \<Rightarrow> FlatElement list \<Rightarrow> bool"
and preorder_children :: "(ElementID \<rightharpoonup> Element) \<Rightarrow> ElementID list \<Rightarrow> int
                              \<Rightarrow> FlatElement list \<Rightarrow> bool"
where
  skip: "els k = None \<Longrightarrow> preorder_walk els k lvl []"
| stay: "els k = Some el \<Longrightarrow> \<not> (hasChildren el \<and> expanded el)
         \<Longrightarrow> preorder_walk els k lvl [\<lparr>key = k, element = el, level = lvl\<rparr>]"
| descend: "els k = Some el \<Longrightarrow> hasChildren el \<Longrightarrow> expanded el
         \<Longrightarrow> preorder_children els (the (children el)) (lvl + 1) rows
         \<Longrightarrow> preorder_walk els k lvl (\<lparr>key = k, element = el, level = lvl\<rparr> # rows)"
| done_children: "preorder_children els [] lvl []"
| next_child: "preorder_walk els c lvl rows1 \<Longrightarrow> preorder_children els cs lvl rows2
         \<Longrightarrow> preorder_children els (c # cs) lvl (rows1 @ rows2)"

text \<open>The projection that a sequence of rows stands for.\<close>

definition projection :: "FlatElement list \<Rightarrow> ElementsState" where
  "projection rows =
     \<lparr>flatKeys = map key rows, flatElements = rows,
      maxDepth = foldl max 0 (map level rows)\<rparr>"

text \<open>Appending rows to the three variables of the walk.\<close>

definition pushRows :: "ElementsState \<Rightarrow> FlatElement list \<Rightarrow> ElementsState" where
  "pushRows st rows =
     \<lparr>flatKeys = flatKeys st @ map key rows, flatElements = flatElements st @ rows,
      maxDepth = foldl max (maxDepth st) (map level rows)\<rparr>"

text \<open>The child references of expanded nodes, as a relation on identities.\<close>

definition childEdges :: "(ElementID \<rightharpoonup> Element) \<Rightarrow> (ElementID \<times> ElementID) set" where
  "childEdges els =
     {(k, c). \<exists>el. els k = Some el \<and> expanded el \<and> hasChildren el
                    \<and> c \<in> set (the (children el))}"

section \<open>The tree of the testable properties\<close>

text \<open>\<open>A\<close> has the children \<open>B\<close> and \<open>C\<close>, \<open>B\<close> has the child \<open>D\<close>; \<open>A\<close> and \<open>B\<close> are expanded.\<close>

definition node :: "ElementID \<Rightarrow> bool \<Rightarrow> ElementID list \<Rightarrow> Element" where
  "node i ex cs =
     \<lparr>eid = i, name = utf16 i, expanded = ex, children = Some cs, attributes = Some []\<rparr>"

definition exampleStore :: "ElementID \<rightharpoonup> Element" where
  "exampleStore =
     [''A'' \<mapsto> node ''A'' True [''B'', ''C''],
      ''B'' \<mapsto> node ''B'' True [''D''],
      ''C'' \<mapsto> node ''C'' False [],
      ''D'' \<mapsto> node ''D'' False []]"

definition exampleProps :: "ElementID option \<Rightarrow> ElementsProps" where
  "exampleProps sel =
     \<lparr>root = Some ''A'', selected = sel, focused = None, searchResults = None,
      elements = exampleStore, alternateRowColor = True\<rparr>"

definition exampleRows :: "FlatElement list" where
  "exampleRows =
     [\<lparr>key = ''A'', element = node ''A'' True [''B'', ''C''], level = 1\<rparr>,
      \<lparr>key = ''B'', element = node ''B'' True [''D''], level = 2\<rparr>,
      \<lparr>key = ''D'', element = node ''D'' False [], level = 3\<rparr>,
      \<lparr>key = ''C'', element = node ''C'' False [], level = 2\<rparr>]"

definition keyEvent :: "string \<Rightarrow> KeyboardEvent" where
  "keyEvent k = \<lparr>ekey = k, metaKey = False, ctrlKey = False, altKey = False\<rparr>"

section \<open>Two further stores\<close>

text \<open>A root whose identity is the empty string, expanded, with one child.\<close>

definition emptyIdStore :: "ElementID \<rightharpoonup> Element" where
  "emptyIdStore = ['''' \<mapsto> node '''' True [''a''], ''a'' \<mapsto> node ''a'' False []]"

definition emptyIdProps :: ElementsProps where
  "emptyIdProps =
     \<lparr>root = Some '''', selected = Some ''a'', focused = None, searchResults = None,
      elements = emptyIdStore, alternateRowColor = True\<rparr>"

definition emptyIdRows :: "FlatElement list" where
  "emptyIdRows =
     [\<lparr>key = '''', element = node '''' True [''a''], level = 1\<rparr>,
      \<lparr>key = ''a'', element = node ''a'' False [], level = 2\<rparr>]"

text \<open>A single node whose \<^verbatim>\<open>children\<close> field is \<^verbatim>\<open>null\<close>.\<close>

definition nullChildrenNode :: Element where
  "nullChildrenNode =
     \<lparr>eid = ''A'', name = utf16 ''A'', expanded = False, children = None,
      attributes = None\<rparr>"

definition nullChildrenProps :: ElementsProps where
  "nullChildrenProps =
     \<lparr>root = Some ''A'', selected = Some ''A'', focused = None, searchResults = None,
      elements = [''A'' \<mapsto> nullChildrenNode], alternateRowColor = True\<rparr>"

definition nullChildrenRows :: "FlatElement list" where
  "nullChildrenRows = [\<lparr>key = ''A'', element = nullChildrenNode, level = 1\<rparr>]"

section \<open>A node that matches a search\<close>

text \<open>
  The node is named \<open>Button\<close>; its attributes \<open>id\<close> and \<open>class\<close> both contain the
  query \<open>Bu\<close>, in other letter cases.
\<close>

definition searchNode :: Element where
  "searchNode =
     \<lparr>eid = ''n1'', name = utf16 ''Button'', expanded = False, children = Some [],
      attributes = Some [\<lparr>attr_name = ''id'', attr_value = utf16 ''submit_BUtton''\<rparr>,
                         \<lparr>attr_name = ''class'', attr_value = utf16 ''bubble''\<rparr>]\<rparr>"

definition searchRow :: FlatElement where
  "searchRow = \<lparr>key = ''n1'', element = searchNode, level = 1\<rparr>"

definition searchProps :: ElementsProps where
  "searchProps =
     \<lparr>root = Some ''n1'', selected = None, focused = None,
      searchResults = Some \<lparr>query = Some (utf16 ''Bu''), matches = {''n1''}\<rparr>,
      elements = [''n1'' \<mapsto> searchNode], alternateRowColor = True\<rparr>"

section \<open>Stores that are forests, and two that are not\<close>


text \<open>
  What the walk can reach: the identities to which child references of
  expanded nodes lead from the root. No cycle is met from the root when a
  rank falls along every reference that starts at a reachable identity. No
  node is referenced twice from the root when, among the reachable
  identities, no children list names twice an identity that yields a node,
  and no such identity is named by the lists of two of them.
\<close>

definition reachableFrom :: "(ElementID \<rightharpoonup> Element) \<Rightarrow> ElementID option \<Rightarrow> ElementID set" where
  "reachableFrom els r =
     (case r of None \<Rightarrow> {} | Some k \<Rightarrow> {c. (k, c) \<in> (childEdges els)\<^sup>*})"

definition acyclicFrom :: "(ElementID \<rightharpoonup> Element) \<Rightarrow> ElementID option \<Rightarrow> (ElementID \<Rightarrow> nat)
                             \<Rightarrow> bool" where
  "acyclicFrom els r rank \<longleftrightarrow>
     (\<forall>k c. k \<in> reachableFrom els r \<and> (k, c) \<in> childEdges els \<longrightarrow> rank c < rank k)"

definition singleReferences :: "(ElementID \<rightharpoonup> Element) \<Rightarrow> ElementID option \<Rightarrow> bool" where
  "singleReferences els r \<longleftrightarrow>
     (\<forall>k el. k \<in> reachableFrom els r \<and> els k = Some el \<and> expanded el \<and> hasChildren el
        \<longrightarrow> distinct (filter (\<lambda>c. els c \<noteq> None) (the (children el))))
     \<and> (\<forall>k1 k2 c. k1 \<in> reachableFrom els r \<and> k2 \<in> reachableFrom els r
           \<and> (k1, c) \<in> childEdges els \<and> (k2, c) \<in> childEdges els \<and> els c \<noteq> None
        \<longrightarrow> k1 = k2)"


text \<open>\<open>A\<close> lists \<open>B\<close> twice.\<close>

definition duplicateProps :: ElementsProps where
  "duplicateProps =
     \<lparr>root = Some ''A'', selected = None, focused = None, searchResults = None,
      elements = [''A'' \<mapsto> node ''A'' True [''B'', ''B''], ''B'' \<mapsto> node ''B'' False []],
      alternateRowColor = True\<rparr>"

definition duplicateRows :: "FlatElement list" where
  "duplicateRows =
     [\<lparr>key = ''A'', element = node ''A'' True [''B'', ''B''], level = 1\<rparr>,
      \<lparr>key = ''B'', element = node ''B'' False [], level = 2\<rparr>,
      \<lparr>key = ''B'', element = node ''B'' False [], level = 2\<rparr>]"

definition duplicateRank :: "ElementID \<Rightarrow> nat" where
  "duplicateRank k = (if k = ''A'' then 1 else 0)"

text \<open>\<open>A\<close> lists itself.\<close>

definition cyclicProps :: ElementsProps where
  "cyclicProps =
     \<lparr>root = Some ''A'', selected = None, focused = None, searchResults = None,
      elements = [''A'' \<mapsto> node ''A'' True [''A'']], alternateRowColor = True\<rparr>"

section \<open>Identities that name members of the prototype\<close>

text \<open>
  The store holds \<open>A\<close> and \<open>B\<close> only; \<open>A\<close> is expanded and lists \<open>constructor\<close>
  and \<open>B\<close>. The identity \<open>constructor\<close> is selected.
\<close>

definition inheritedProps :: ElementsProps where
  "inheritedProps =
     \<lparr>root = Some ''A'', selected = Some ''constructor'', focused = None,
      searchResults = None,
      elements = [''A'' \<mapsto> node ''A'' True [''constructor'', ''B''],
                  ''B'' \<mapsto> node ''B'' False []],
      alternateRowColor = True\<rparr>"

definition inheritedRows :: "FlatElement list" where
  "inheritedRows =
     [\<lparr>key = ''A'', element = node ''A'' True [''constructor'', ''B''], level = 1\<rparr>,
      \<lparr>key = ''constructor'', element = inherited ''constructor'', level = 2\<rparr>,
      \<lparr>key = ''B'', element = node ''B'' False [], level = 2\<rparr>]"

text \<open>An empty store whose root identity is \<open>constructor\<close>.\<close>

definition emptyStoreProps :: ElementsProps where
  "emptyStoreProps =
     \<lparr>root = Some ''constructor'', selected = None, focused = None, searchResults = None,
      elements = Map.empty, alternateRowColor = True\<rparr>"

section \<open>A matching node with a capital I with a dot above\<close>

text \<open>
  The name of the node and the value of its attribute \<open>id\<close> are the two units
  \<open>U+0130\<close> and \<open>x\<close>; the query is \<open>x\<close>.
\<close>

definition dottedNode :: Element where
  "dottedNode =
     \<lparr>eid = ''n1'', name = [304, 120], expanded = False, children = Some [],
      attributes = Some [\<lparr>attr_name = ''id'', attr_value = [304, 120]\<rparr>]\<rparr>"

definition dottedRow :: FlatElement where
  "dottedRow = \<lparr>key = ''n1'', element = dottedNode, level = 1\<rparr>"

definition dottedProps :: ElementsProps where
  "dottedProps =
     \<lparr>root = Some ''n1'', selected = None, focused = None,
      searchResults = Some \<lparr>query = Some [120], matches = {''n1''}\<rparr>,
      elements = [''n1'' \<mapsto> dottedNode], alternateRowColor = True\<rparr>"

section \<open>Parent rows\<close>


section \<open>Facts about the built-ins\<close>

lemma indexOf_neg_iff: "indexOf xs x < 0 \<longleftrightarrow> x \<notin> set xs"
  by (induction xs) (auto simp: Let_def)

lemma indexOf_ge_minus1: "- 1 \<le> indexOf xs x"
  by (induction xs) (auto simp: Let_def)

lemma indexOf_lt_length: "indexOf xs x < int (length xs)"
  by (induction xs) (auto simp: Let_def)

lemma indexOf_nth: "x \<in> set xs \<Longrightarrow> xs ! nat (indexOf xs x) = x"
proof (induction xs)
  case Nil
  then show ?case by simp
next
  case (Cons y ys)
  show ?case
  proof (cases "y = x")
    case True
    then show ?thesis by simp
  next
    case False
    with Cons.prems have mem: "x \<in> set ys" by simp
    then have nonneg: "0 \<le> indexOf ys x"
      using indexOf_neg_iff [of ys x] by linarith
    then have "nat (indexOf ys x + 1) = Suc (nat (indexOf ys x))" by simp
    with False nonneg Cons.IH [OF mem] show ?thesis
      by (simp add: Let_def)
  qed
qed

lemma indexOf_first: "j < nat (indexOf xs x) \<Longrightarrow> xs ! j \<noteq> x"
proof (induction xs arbitrary: j)
  case Nil
  then show ?case by simp
next
  case (Cons y ys)
  show ?case
  proof (cases "y = x")
    case True
    with Cons.prems show ?thesis by simp
  next
    case False
    show ?thesis
    proof (cases j)
      case 0
      with False show ?thesis by simp
    next
      case (Suc j')
      with Cons.prems False have "j' < nat (indexOf ys x)"
        by (auto simp: Let_def split: if_splits)
      from Cons.IH [OF this] Suc show ?thesis by simp
    qed
  qed
qed

section \<open>The walk refines the pre-order traversal\<close>

lemma pushRows_Nil: "pushRows st [] = st"
  by (simp add: pushRows_def)

lemma pushRows_append: "pushRows (pushRows st rows1) rows2 = pushRows st (rows1 @ rows2)"
  by (simp add: pushRows_def)

lemma state_updates:
  "(st :: ElementsState)\<lparr>maxDepth := d, flatElements := fe, flatKeys := fk\<rparr> =
     \<lparr>flatKeys = fk, flatElements = fe, maxDepth = d\<rparr>"
  by (cases st) simp

lemma pushRows_Cons: "pushRows (pushRows st [r]) rows = pushRows st (r # rows)"
  by (simp add: pushRows_append)

lemma pushRows_initial: "pushRows initialState rows = projection rows"
  by (simp add: pushRows_def projection_def initialState_def)

lemma pushRows_inject: "pushRows st rows1 = pushRows st rows2 \<Longrightarrow> rows1 = rows2"
proof -
  assume "pushRows st rows1 = pushRows st rows2"
  then have "flatElements (pushRows st rows1) = flatElements (pushRows st rows2)" by simp
  then show ?thesis by (simp add: pushRows_def)
qed

lemma seed_step:
  "seed (Suc n) els k lvl st =
     (case lookup els k of
        None \<Rightarrow> Some st
      | Some el \<Rightarrow>
          if hasChildren el \<and> expanded el
          then seed_children n els (the (children el)) (lvl + 1)
                 (pushRows st [\<lparr>key = k, element = el, level = lvl\<rparr>])
          else Some (pushRows st [\<lparr>key = k, element = el, level = lvl\<rparr>]))"
  by (simp add: pushRows_def hasChildren_def Let_def state_updates split: option.splits)

lemma seed_sound:
  "seed n els k lvl st = Some st' \<Longrightarrow>
     \<exists>rows. preorder_walk (lookup els) k lvl rows \<and> st' = pushRows st rows"
  "seed_children n els cs lvl st = Some st' \<Longrightarrow>
     \<exists>rows. preorder_children (lookup els) cs lvl rows \<and> st' = pushRows st rows"
proof (induction n els k lvl st and n els cs lvl st arbitrary: st' and st'
       rule: seed_seed_children.induct)
  case (1 els k lvl st)
  then show ?case by simp
next
  case (2 n els k lvl st)
  show ?case
  proof (cases "lookup els k")
    case None
    with "2.prems" have "st' = st" by simp
    with None show ?thesis
      using preorder_walk_preorder_children.skip [of "lookup els" k lvl] pushRows_Nil [of st] by auto
  next
    case (Some el)
    let ?r = "\<lparr>key = k, element = el, level = lvl\<rparr>"
    show ?thesis
    proof (cases "hasChildren el \<and> expanded el")
      case False
      with Some "2.prems" have "st' = pushRows st [?r]"
        by (simp add: seed_step del: seed.simps)
      with Some False show ?thesis
        using preorder_walk_preorder_children.stay [of "lookup els" k el lvl] by auto
    next
      case True
      with Some "2.prems"
      have run: "seed_children n els (the (children el)) (lvl + 1) (pushRows st [?r]) = Some st'"
        by (simp add: seed_step del: seed.simps)
      from True obtain cs where cs: "children el = Some cs" "0 < length cs"
        by (auto simp: hasChildren_def split: option.splits)
      have st1: "st\<lparr>maxDepth := max (maxDepth st) lvl,
                      flatElements := flatElements st @ [?r],
                      flatKeys := flatKeys st @ [k]\<rparr> = pushRows st [?r]"
        by (simp add: state_updates pushRows_def)
      from cs True have guard: "0 < length cs \<and> expanded el" by simp
      from run cs have "seed_children n els cs (lvl + 1) (pushRows st [?r]) = Some st'"
        by simp
      from "2.IH" [OF Some refl cs(1) guard, unfolded st1, OF this]
      obtain rows where rows: "preorder_children (lookup els) cs (lvl + 1) rows"
        "st' = pushRows (pushRows st [?r]) rows"
        by auto
      from rows(1) cs have "preorder_walk (lookup els) k lvl (?r # rows)"
        using preorder_walk_preorder_children.descend [of "lookup els" k el lvl rows] Some True by simp
      with rows(2) show ?thesis by (auto simp: pushRows_Cons)
    qed
  qed
next
  case (3 n els lvl st)
  then have "st' = st" by simp
  then show ?case
    using preorder_walk_preorder_children.done_children [of "lookup els" lvl] pushRows_Nil [of st] by auto
next
  case (4 n els c cs lvl st)
  from "4.prems" obtain st1 where st1: "seed n els c lvl st = Some st1"
    and rest: "seed_children n els cs lvl st1 = Some st'"
    by (auto split: option.splits)
  from "4.IH"(1) [OF st1] obtain rows1 where r1: "preorder_walk (lookup els) c lvl rows1"
    "st1 = pushRows st rows1" by auto
  from "4.IH"(2) [OF st1 rest] obtain rows2 where r2: "preorder_children (lookup els) cs lvl rows2"
    "st' = pushRows st1 rows2" by auto
  from r1 r2 have "preorder_children (lookup els) (c # cs) lvl (rows1 @ rows2)"
    by (simp add: preorder_walk_preorder_children.next_child)
  moreover from r1 r2 have "st' = pushRows st (rows1 @ rows2)"
    by (simp add: pushRows_append)
  ultimately show ?case by auto
qed

lemma seed_complete_store:
  "preorder_walk yield k lvl rows \<Longrightarrow> yield = lookup els \<Longrightarrow>
     \<exists>n. \<forall>m\<ge>n. \<forall>st. seed m els k lvl st = Some (pushRows st rows)"
  "preorder_children yield cs lvl rows \<Longrightarrow> yield = lookup els \<Longrightarrow>
     \<exists>n. \<forall>m\<ge>n. \<forall>st. seed_children m els cs lvl st = Some (pushRows st rows)"
proof (induction rule: preorder_walk_preorder_children.inducts)
  case (skip yield k lvl)
  have "\<forall>m\<ge>Suc 0. \<forall>st. seed m els k lvl st = Some (pushRows st [])"
  proof (intro allI impI)
    fix m st assume "Suc 0 \<le> m"
    then obtain m' where "m = Suc m'" by (auto dest: Suc_le_D)
    with skip show "seed m els k lvl st = Some (pushRows st [])"
      by (simp add: seed_step pushRows_Nil del: seed.simps)
  qed
  then show ?case ..
next
  case (stay yield k el lvl)
  have "\<forall>m\<ge>Suc 0. \<forall>st. seed m els k lvl st
          = Some (pushRows st [\<lparr>key = k, element = el, level = lvl\<rparr>])"
  proof (intro allI impI)
    fix m st assume "Suc 0 \<le> m"
    then obtain m' where "m = Suc m'" by (auto dest: Suc_le_D)
    with stay show "seed m els k lvl st
          = Some (pushRows st [\<lparr>key = k, element = el, level = lvl\<rparr>])"
      by (auto simp add: seed_step simp del: seed.simps)
  qed
  then show ?case ..
next
  case (descend yield k el lvl rows)
  from descend.IH [OF descend.prems] obtain n where n:
    "\<forall>m\<ge>n. \<forall>st. seed_children m els (the (children el)) (lvl + 1) st
        = Some (pushRows st rows)" ..
  have "\<forall>m\<ge>Suc n. \<forall>st. seed m els k lvl st
          = Some (pushRows st (\<lparr>key = k, element = el, level = lvl\<rparr> # rows))"
  proof (intro allI impI)
    fix m st assume "Suc n \<le> m"
    then obtain m' where m': "m = Suc m'" "n \<le> m'" by (auto dest: Suc_le_D)
    with n descend.hyps descend.prems show "seed m els k lvl st
          = Some (pushRows st (\<lparr>key = k, element = el, level = lvl\<rparr> # rows))"
      by (simp add: seed_step pushRows_Cons del: seed.simps)
  qed
  then show ?case ..
next
  case (done_children yield lvl)
  have "\<forall>m\<ge>0. \<forall>st. seed_children m els [] lvl st = Some (pushRows st [])"
    by (simp add: pushRows_Nil)
  then show ?case ..
next
  case (next_child yield c lvl rows1 cs rows2)
  from next_child.IH(1) [OF next_child.prems] obtain n1 where n1:
    "\<forall>m\<ge>n1. \<forall>st. seed m els c lvl st = Some (pushRows st rows1)" ..
  from next_child.IH(2) [OF next_child.prems] obtain n2 where n2:
    "\<forall>m\<ge>n2. \<forall>st. seed_children m els cs lvl st = Some (pushRows st rows2)" ..
  have "\<forall>m\<ge>max n1 n2. \<forall>st. seed_children m els (c # cs) lvl st
          = Some (pushRows st (rows1 @ rows2))"
  proof (intro allI impI)
    fix m st assume "max n1 n2 \<le> m"
    then have "n1 \<le> m" "n2 \<le> m" by simp_all
    with n1 n2 show "seed_children m els (c # cs) lvl st = Some (pushRows st (rows1 @ rows2))"
      by (simp add: pushRows_append)
  qed
  then show ?case ..
qed

lemma seed_complete:
  "preorder_walk (lookup els) k lvl rows \<Longrightarrow>
     \<exists>n. \<forall>m\<ge>n. \<forall>st. seed m els k lvl st = Some (pushRows st rows)"
  "preorder_children (lookup els) cs lvl rows \<Longrightarrow>
     \<exists>n. \<forall>m\<ge>n. \<forall>st. seed_children m els cs lvl st = Some (pushRows st rows)"
  by (simp_all add: seed_complete_store)

lemma preorder_walk_unique:
  assumes "preorder_walk (lookup els) k lvl rows1" "preorder_walk (lookup els) k lvl rows2"
  shows "rows1 = rows2"
proof -
  from seed_complete(1) [OF assms(1)] obtain n1 where
    n1: "\<forall>m\<ge>n1. \<forall>st. seed m els k lvl st = Some (pushRows st rows1)" ..
  from seed_complete(1) [OF assms(2)] obtain n2 where
    n2: "\<forall>m\<ge>n2. \<forall>st. seed m els k lvl st = Some (pushRows st rows2)" ..
  from n1 have "seed (max n1 n2) els k lvl initialState = Some (pushRows initialState rows1)"
    by simp
  moreover from n2 have "seed (max n1 n2) els k lvl initialState = Some (pushRows initialState rows2)"
    by simp
  ultimately have "pushRows initialState rows1 = pushRows initialState rows2" by simp
  then show ?thesis by (rule pushRows_inject)
qed

lemma seed_more_fuel:
  "seed n els k lvl st = Some st' \<Longrightarrow> n \<le> m \<Longrightarrow> seed m els k lvl st = Some st'"
  "seed_children n els cs lvl st = Some st' \<Longrightarrow> n \<le> m
     \<Longrightarrow> seed_children m els cs lvl st = Some st'"
proof (induction n els k lvl st and n els cs lvl st arbitrary: st' m and st' m
       rule: seed_seed_children.induct)
  case (1 els k lvl st)
  then show ?case by simp
next
  case (2 n els k lvl st)
  from "2.prems"(2) obtain m' where m': "m = Suc m'" "n \<le> m'" by (auto dest: Suc_le_D)
  show ?case
  proof (cases "lookup els k")
    case None
    with "2.prems"(1) m' show ?thesis by simp
  next
    case (Some el)
    let ?r = "\<lparr>key = k, element = el, level = lvl\<rparr>"
    show ?thesis
    proof (cases "hasChildren el \<and> expanded el")
      case False
      with Some "2.prems"(1) m' show ?thesis
        by (auto simp add: seed_step simp del: seed.simps)
    next
      case True
      then obtain cs where cs: "children el = Some cs" "0 < length cs \<and> expanded el"
        by (auto simp: hasChildren_def split: option.splits)
      have st1: "st\<lparr>maxDepth := max (maxDepth st) lvl,
                      flatElements := flatElements st @ [?r],
                      flatKeys := flatKeys st @ [k]\<rparr> = pushRows st [?r]"
        by (simp add: state_updates pushRows_def)
      from Some True "2.prems"(1) cs
      have "seed_children n els cs (lvl + 1) (pushRows st [?r]) = Some st'"
        by (simp add: seed_step del: seed.simps)
      from "2.IH" [OF Some refl cs, unfolded st1, OF this m'(2)] Some True cs m'
      show ?thesis
        by (simp add: seed_step del: seed.simps)
    qed
  qed
next
  case (3 n els lvl st)
  then show ?case by simp
next
  case (4 n els c cs lvl st)
  from "4.prems"(1) obtain st1 where st1: "seed n els c lvl st = Some st1"
    and rest: "seed_children n els cs lvl st1 = Some st'"
    by (auto split: option.splits)
  from "4.IH"(1) [OF st1 "4.prems"(2)] "4.IH"(2) [OF st1 rest "4.prems"(2)]
  show ?case by simp
qed

section \<open>The guards of the navigator\<close>

text \<open>
  Whatever the key and its modifiers, on whatever platform, the handler has no
  effect at all and throws nothing when the selected identity is null, or is
  not among the flattened keys, or yields nothing when read from the store
  object.
\<close>

lemma onKeyDown_returns_early:
  assumes "selected props = None
           \<or> (\<exists>sel. selected props = Some sel
                \<and> (sel \<notin> set (flatKeys st) \<or> lookup (elements props) sel = None))"
  shows "onKeyDown platform props st e = Inr []"
  using assms
proof (elim disjE exE conjE)
  assume "selected props = None"
  then show ?thesis by (simp add: onKeyDown_def)
next
  fix sel
  assume sel: "selected props = Some sel" and absent: "sel \<notin> set (flatKeys st)"
  from absent have "indexOf (flatKeys st) sel < 0" by (simp add: indexOf_neg_iff)
  with sel show ?thesis by (simp add: onKeyDown_def Let_def)
next
  fix sel
  assume "selected props = Some sel" and "lookup (elements props) sel = None"
  then show ?thesis by (simp add: onKeyDown_def Let_def)
qed

lemma lookup_own: "els k = Some el \<Longrightarrow> lookup els k = Some el"
  by (simp add: lookup_def)

lemma lookup_None_iff: "lookup els k = None \<longleftrightarrow> els k = None \<and> k \<notin> set prototypeMembers"
  by (simp add: lookup_def split: option.splits)

lemma lookup_inherited:
  "els k = None \<Longrightarrow> k \<in> set prototypeMembers \<Longrightarrow> lookup els k = Some (inherited k)"
  by (simp add: lookup_def)

section \<open>Facts about the flattened projection and the handler\<close>

lemma preorder_rows_in_store:
  "preorder_walk els k lvl rows \<Longrightarrow> \<forall>r\<in>set rows. els (key r) = Some (element r)"
  "preorder_children els cs lvl rows \<Longrightarrow> \<forall>r\<in>set rows. els (key r) = Some (element r)"
  by (induction rule: preorder_walk_preorder_children.inducts) auto

lemma setProps_result:
  assumes "setProps n props = Some st"
  shows "(root props = None \<and> st = initialState) \<or>
         (\<exists>r rows. root props = Some r \<and> preorder_walk (lookup (elements props)) r 1 rows
                    \<and> st = projection rows)"
proof (cases "root props")
  case None
  with assms show ?thesis by (simp add: setProps_def)
next
  case (Some r)
  with assms have "seed n (elements props) r 1 initialState = Some st"
    by (simp add: setProps_def)
  from seed_sound(1) [OF this] Some show ?thesis
    by (auto simp: pushRows_initial)
qed

lemma setProps_parallel:
  assumes "setProps n props = Some st"
  shows "flatKeys st = map key (flatElements st)"
  using setProps_result [OF assms] by (auto simp: initialState_def projection_def)

lemma flatKeys_in_store:
  assumes "setProps n props = Some st" "k \<in> set (flatKeys st)"
  shows "\<exists>el. lookup (elements props) k = Some el"
  using setProps_result [OF assms(1)]
proof (elim disjE exE conjE)
  assume "st = initialState"
  with assms(2) show ?thesis by (simp add: initialState_def)
next
  fix r rows
  assume walk: "preorder_walk (lookup (elements props)) r 1 rows" and st: "st = projection rows"
  from assms(2) st obtain row where "row \<in> set rows" "key row = k"
    by (auto simp: projection_def)
  with preorder_rows_in_store(1) [OF walk] show ?thesis by auto
qed

lemma indexOf_eq_first:
  "i < length xs \<Longrightarrow> xs ! i = x \<Longrightarrow> (\<forall>j<i. xs ! j \<noteq> x) \<Longrightarrow> indexOf xs x = int i"
proof (induction xs arbitrary: i)
  case Nil
  then show ?case by simp
next
  case (Cons y ys)
  show ?case
  proof (cases i)
    case 0
    with Cons.prems show ?thesis by simp
  next
    case (Suc i')
    with Cons.prems have "y \<noteq> x" by auto
    moreover from Suc Cons.prems have "indexOf ys x = int i'"
      by (intro Cons.IH) auto
    ultimately show ?thesis using Suc by (simp add: Let_def)
  qed
qed

lemma onKeyDown_passed:
  assumes "selected props = Some sel" "sel \<in> set (flatKeys st)"
    "lookup (elements props) sel = Some selectedElement"
  shows "onKeyDown platform props st e =
    (let selectedIndex = indexOf (flatKeys st) sel in
                  if ekey e = ''c'' \<and>
                     ((metaKey e \<and> platform = ''darwin'') \<or>
                      (ctrlKey e \<and> platform \<noteq> ''darwin''))
                  then Inr [PreventDefault, ClipboardWriteText (name selectedElement)]
                  else if ekey e = ''ArrowUp'' then
                    (if selectedIndex = 0 \<or> length (flatKeys st) = 1 then Inr []
                     else Inr [PreventDefault,
                               ElementSelected (flatKeys st ! nat (selectedIndex - 1))])
                  else if ekey e = ''ArrowDown'' then
                    (if selectedIndex = int (length (flatKeys st)) - 1 then Inr []
                     else Inr [PreventDefault,
                               ElementSelected (flatKeys st ! nat (selectedIndex + 1))])
                  else if ekey e = ''ArrowLeft'' then
                    (if expanded selectedElement
                     then Inr [PreventDefault, ElementExpanded sel False]
                     else if nat selectedIndex < length (flatElements st) then
                       (case jumpToParent (flatElements st) (flatKeys st)
                               (level (flatElements st ! nat selectedIndex) - 1)
                               (nat selectedIndex) of
                          Inl err \<Rightarrow> Inl err
                        | Inr None \<Rightarrow> Inr [PreventDefault]
                        | Inr (Some parentKey) \<Rightarrow>
                            if truthy parentKey
                            then Inr [PreventDefault, ElementSelected parentKey]
                            else Inr [PreventDefault])
                     else Inl TypeError)
                  else if ekey e = ''ArrowRight'' then
                    (case children selectedElement of
                       None \<Rightarrow> Inl TypeError
                     | Some cs \<Rightarrow>
                         if length cs > 0 then
                           (if expanded selectedElement
                            then Inr [PreventDefault, ElementSelected (cs ! 0)]
                            else Inr [PreventDefault, ElementExpanded sel False])
                         else Inr [])
                  else Inr [])"
proof -
  from assms(2) have "\<not> indexOf (flatKeys st) sel < 0" by (simp add: indexOf_neg_iff)
  with assms(1,3) show ?thesis
    unfolding onKeyDown_def Let_def by (simp only: option.case if_False)
qed

lemma onKeyDown_ArrowUp:
  assumes "selected props = Some sel" "sel \<in> set (flatKeys st)"
    "lookup (elements props) sel = Some selectedElement" "ekey e = ''ArrowUp''"
  shows "onKeyDown platform props st e =
    (if indexOf (flatKeys st) sel = 0 \<or> length (flatKeys st) = 1 then Inr []
     else Inr [PreventDefault,
               ElementSelected (flatKeys st ! nat (indexOf (flatKeys st) sel - 1))])"
  unfolding onKeyDown_passed [OF assms(1-3)] Let_def using assms(4) by simp

lemma onKeyDown_ArrowDown:
  assumes "selected props = Some sel" "sel \<in> set (flatKeys st)"
    "lookup (elements props) sel = Some selectedElement" "ekey e = ''ArrowDown''"
  shows "onKeyDown platform props st e =
    (if indexOf (flatKeys st) sel = int (length (flatKeys st)) - 1 then Inr []
     else Inr [PreventDefault,
               ElementSelected (flatKeys st ! nat (indexOf (flatKeys st) sel + 1))])"
  unfolding onKeyDown_passed [OF assms(1-3)] Let_def using assms(4) by simp

lemma onKeyDown_ArrowLeft:
  assumes "selected props = Some sel" "sel \<in> set (flatKeys st)"
    "lookup (elements props) sel = Some selectedElement" "ekey e = ''ArrowLeft''"
  shows "onKeyDown platform props st e =
    (if expanded selectedElement
     then Inr [PreventDefault, ElementExpanded sel False]
     else if nat (indexOf (flatKeys st) sel) < length (flatElements st) then
       (case jumpToParent (flatElements st) (flatKeys st)
               (level (flatElements st ! nat (indexOf (flatKeys st) sel)) - 1)
               (nat (indexOf (flatKeys st) sel)) of
          Inl err \<Rightarrow> Inl err
        | Inr None \<Rightarrow> Inr [PreventDefault]
        | Inr (Some parentKey) \<Rightarrow>
            if truthy parentKey
            then Inr [PreventDefault, ElementSelected parentKey]
            else Inr [PreventDefault])
     else Inl TypeError)"
  unfolding onKeyDown_passed [OF assms(1-3)] Let_def using assms(4) by simp

lemma onKeyDown_ArrowRight:
  assumes "selected props = Some sel" "sel \<in> set (flatKeys st)"
    "lookup (elements props) sel = Some selectedElement" "ekey e = ''ArrowRight''"
  shows "onKeyDown platform props st e =
    (case children selectedElement of
       None \<Rightarrow> Inl TypeError
     | Some cs \<Rightarrow>
         if length cs > 0 then
           (if expanded selectedElement
            then Inr [PreventDefault, ElementSelected (cs ! 0)]
            else Inr [PreventDefault, ElementExpanded sel False])
         else Inr [])"
  unfolding onKeyDown_passed [OF assms(1-3)] Let_def using assms(4) by simp

section \<open>Moving the selection up and down\<close>

text \<open>
  Claim C4, amended. Let the selected identity be in the flattened sequence
  and let \<open>i\<close> be the first index at which it occurs, which is the index the
  handler looks up. \<^verbatim>\<open>ArrowUp\<close> selects the row at \<open>i - 1\<close> when \<open>0 < i\<close> and
  does nothing otherwise; \<^verbatim>\<open>ArrowDown\<close> selects the row at \<open>i + 1\<close> when \<open>i\<close> is
  below the last index and does nothing otherwise; with fewer than two rows
  both do nothing.
\<close>

theorem arrow_up_down:
  assumes "setProps n props = Some st"
    and "selected props = Some sel"
    and "i < length (flatKeys st)" "flatKeys st ! i = sel" "\<forall>j<i. flatKeys st ! j \<noteq> sel"
    and "ekey up = ''ArrowUp''" "ekey down = ''ArrowDown''"
  shows "onKeyDown platform props st up =
           Inr (if 0 < i then [PreventDefault, ElementSelected (flatKeys st ! (i - 1))] else [])
       \<and> onKeyDown platform props st down =
           Inr (if i < length (flatKeys st) - 1
                then [PreventDefault, ElementSelected (flatKeys st ! (i + 1))] else [])
       \<and> (length (flatKeys st) < 2 \<longrightarrow>
            onKeyDown platform props st up = Inr [] \<and> onKeyDown platform props st down = Inr [])"
proof -
  from assms(3,4) have mem: "sel \<in> set (flatKeys st)" by auto
  from flatKeys_in_store [OF assms(1) mem] obtain el where el: "lookup (elements props) sel = Some el" ..
  from assms(3-5) have idx: "indexOf (flatKeys st) sel = int i" by (rule indexOf_eq_first)
  have up: "onKeyDown platform props st up =
           Inr (if 0 < i then [PreventDefault, ElementSelected (flatKeys st ! (i - 1))] else [])"
    using assms(3) by (simp add: onKeyDown_ArrowUp [OF assms(2) mem el assms(6)] idx nat_diff_distrib)
  have down: "onKeyDown platform props st down =
           Inr (if i < length (flatKeys st) - 1
                then [PreventDefault, ElementSelected (flatKeys st ! (i + 1))] else [])"
    using assms(3) by (auto simp add: onKeyDown_ArrowDown [OF assms(2) mem el assms(7)] idx nat_add_distrib)
  from up down assms(3) show ?thesis by auto
qed

theorem arrow_up_down_witness:
  "setProps 3 (exampleProps (Some ''B'')) = Some (projection exampleRows)
   \<and> onKeyDown ''linux'' (exampleProps (Some ''B'')) (projection exampleRows)
        (keyEvent ''ArrowUp'') = Inr [PreventDefault, ElementSelected ''A'']
   \<and> onKeyDown ''linux'' (exampleProps (Some ''B'')) (projection exampleRows)
        (keyEvent ''ArrowDown'') = Inr [PreventDefault, ElementSelected ''D'']"
proof -
  have flat: "setProps 3 (exampleProps (Some ''B'')) = Some (projection exampleRows)"
    by code_simp
  have sel: "selected (exampleProps (Some ''B'')) = Some ''B''"
    by (simp add: exampleProps_def)
  have i: "1 < length (flatKeys (projection exampleRows))"
    "flatKeys (projection exampleRows) ! 1 = ''B''"
    "\<forall>j<1. flatKeys (projection exampleRows) ! j \<noteq> ''B''"
    by (simp_all add: projection_def exampleRows_def)
  have keys: "ekey (keyEvent ''ArrowUp'') = ''ArrowUp''" "ekey (keyEvent ''ArrowDown'') = ''ArrowDown''"
    by (simp_all add: keyEvent_def)
  from arrow_up_down [OF flat sel i keys, of "''linux''"] flat show ?thesis
    by (simp add: projection_def exampleRows_def)
qed


text \<open>
  Claim C4 as stated, for any index that holds the selected identity, fails
  where an identity is repeated. With \<open>A\<close> expanded and listing \<open>B\<close> twice the
  flattened keys are \<open>A\<close>, \<open>B\<close>, \<open>B\<close>; the selected \<open>B\<close> is present at index 2,
  the last one. \<^verbatim>\<open>ArrowDown\<close> there still requests a selection, and \<^verbatim>\<open>ArrowUp\<close>
  selects the row at index 0 and not the one at index 1: the handler works
  from index 1, where \<open>B\<close> occurs first.
\<close>

theorem arrow_repeated_identity:
  "setProps 2 (duplicateProps\<lparr>selected := Some ''B''\<rparr>) = Some (projection duplicateRows)
   \<and> flatKeys (projection duplicateRows) = [''A'', ''B'', ''B'']
   \<and> flatKeys (projection duplicateRows) ! 2 = ''B''
   \<and> length (flatKeys (projection duplicateRows)) - 1 = 2
   \<and> onKeyDown ''linux'' (duplicateProps\<lparr>selected := Some ''B''\<rparr>)
         (projection duplicateRows) (keyEvent ''ArrowDown'')
       = Inr [PreventDefault, ElementSelected ''B'']
   \<and> onKeyDown ''linux'' (duplicateProps\<lparr>selected := Some ''B''\<rparr>)
         (projection duplicateRows) (keyEvent ''ArrowUp'')
       = Inr [PreventDefault, ElementSelected ''A'']
   \<and> flatKeys (projection duplicateRows) ! (2 - 1) \<noteq> ''A''"
  by code_simp

section \<open>Collapsing and expanding with the arrow keys\<close>

lemma jumpToParent_none:
  "i < length fe \<Longrightarrow> \<forall>m\<le>i. level (fe ! m) \<noteq> t \<Longrightarrow> jumpToParent fe fk t i = Inr None"
  by (induction i) auto

lemma jumpToParent_found:
  "i < length fe \<Longrightarrow> length fk = length fe \<Longrightarrow> j \<le> i \<Longrightarrow> level (fe ! j) = t
     \<Longrightarrow> \<forall>m. j < m \<and> m \<le> i \<longrightarrow> level (fe ! m) \<noteq> t
     \<Longrightarrow> jumpToParent fe fk t i = Inr (Some (fk ! j))"
proof (induction i)
  case 0
  then show ?case by simp
next
  case (Suc i)
  show ?case
  proof (cases "j = Suc i")
    case True
    with Suc.prems show ?thesis by simp
  next
    case False
    with Suc.prems have "j \<le> i" "level (fe ! Suc i) \<noteq> t" by auto
    moreover from Suc.prems have "\<forall>m. j < m \<and> m \<le> i \<longrightarrow> level (fe ! m) \<noteq> t" by auto
    ultimately show ?thesis using Suc.prems Suc.IH by simp
  qed
qed

text \<open>
  \<^verbatim>\<open>ArrowLeft\<close> on a flattened sequence. An expanded node is collapsed. For a
  collapsed one, the nearest row at or before the selected one that lies one
  level above is selected, provided its identity is not the empty string;
  without such a row nothing is selected.
\<close>

lemma arrow_left:
  assumes "setProps n props = Some st"
    and "selected props = Some sel"
    and "i < length (flatKeys st)" "flatKeys st ! i = sel" "\<forall>j<i. flatKeys st ! j \<noteq> sel"
    and "lookup (elements props) sel = Some el"
    and "ekey e = ''ArrowLeft''"
  shows "expanded el \<longrightarrow>
           onKeyDown platform props st e = Inr [PreventDefault, ElementExpanded sel False]"
    and "\<not> expanded el
           \<and> (\<forall>m\<le>i. level (flatElements st ! m) \<noteq> level (flatElements st ! i) - 1) \<longrightarrow>
           onKeyDown platform props st e = Inr [PreventDefault]"
    and "\<not> expanded el \<and> j \<le> i
           \<and> level (flatElements st ! j) = level (flatElements st ! i) - 1
           \<and> (\<forall>m. j < m \<and> m \<le> i \<longrightarrow>
                 level (flatElements st ! m) \<noteq> level (flatElements st ! i) - 1) \<longrightarrow>
           onKeyDown platform props st e =
             Inr (if flatKeys st ! j \<noteq> [] then [PreventDefault, ElementSelected (flatKeys st ! j)]
                  else [PreventDefault])"
proof -
  from assms(3,4) have mem: "sel \<in> set (flatKeys st)" by auto
  from assms(3-5) have idx: "indexOf (flatKeys st) sel = int i" by (rule indexOf_eq_first)
  from setProps_parallel [OF assms(1)] have same: "length (flatKeys st) = length (flatElements st)"
    by simp
  with assms(3) have inside: "i < length (flatElements st)" by simp
  note unfold = onKeyDown_ArrowLeft [OF assms(2) mem assms(6,7), of platform, unfolded idx]
  show "expanded el \<longrightarrow>
           onKeyDown platform props st e = Inr [PreventDefault, ElementExpanded sel False]"
    by (simp add: unfold)
  show "\<not> expanded el
           \<and> (\<forall>m\<le>i. level (flatElements st ! m) \<noteq> level (flatElements st ! i) - 1) \<longrightarrow>
           onKeyDown platform props st e = Inr [PreventDefault]"
    using inside by (simp add: unfold jumpToParent_none)
  show "\<not> expanded el \<and> j \<le> i
           \<and> level (flatElements st ! j) = level (flatElements st ! i) - 1
           \<and> (\<forall>m. j < m \<and> m \<le> i \<longrightarrow>
                 level (flatElements st ! m) \<noteq> level (flatElements st ! i) - 1) \<longrightarrow>
           onKeyDown platform props st e =
             Inr (if flatKeys st ! j \<noteq> [] then [PreventDefault, ElementSelected (flatKeys st ! j)]
                  else [PreventDefault])"
  proof
    assume a: "\<not> expanded el \<and> j \<le> i
           \<and> level (flatElements st ! j) = level (flatElements st ! i) - 1
           \<and> (\<forall>m. j < m \<and> m \<le> i \<longrightarrow>
                 level (flatElements st ! m) \<noteq> level (flatElements st ! i) - 1)"
    then have "jumpToParent (flatElements st) (flatKeys st) (level (flatElements st ! i) - 1) i
                 = Inr (Some (flatKeys st ! j))"
      using inside same by (intro jumpToParent_found) simp_all
    with a inside show "onKeyDown platform props st e =
             Inr (if flatKeys st ! j \<noteq> [] then [PreventDefault, ElementSelected (flatKeys st ! j)]
                  else [PreventDefault])"
      by (simp add: unfold truthy_def)
  qed
qed

text \<open>
  \<^verbatim>\<open>ArrowRight\<close> on a node whose \<^verbatim>\<open>children\<close> field holds an array: the
  first child is selected when the node is expanded, the node is asked to
  expand (not deeply) when it is collapsed, and nothing happens when the array
  is empty.
\<close>

lemma arrow_right:
  assumes "selected props = Some sel" "sel \<in> set (flatKeys st)"
    and "lookup (elements props) sel = Some el" "children el = Some cs"
    and "ekey e = ''ArrowRight''"
  shows "onKeyDown platform props st e =
           Inr (if cs = [] then []
                else if expanded el then [PreventDefault, ElementSelected (hd cs)]
                else [PreventDefault, ElementExpanded sel False])"
  using assms(4)
  by (simp add: onKeyDown_ArrowRight [OF assms(1-3,5)] hd_conv_nth)

text \<open>
  Claim C5, at a parent whose identity is the empty string. The selected node
  \<open>a\<close> is collapsed and sits at level 2; the backward scan finds the root row
  at level 1, whose identity is the empty string; the test \<^verbatim>\<open>if (parentKey)\<close>
  takes the empty string for "not found", and no selection is requested.
\<close>

theorem arrow_left_empty_parent_id:
  "setProps 2 emptyIdProps = Some (projection emptyIdRows)
   \<and> jumpToParent emptyIdRows (map key emptyIdRows) (2 - 1) 1 = Inr (Some '''')
   \<and> onKeyDown platform emptyIdProps (projection emptyIdRows) (keyEvent ''ArrowLeft'')
        = Inr [PreventDefault]"
proof -
  have "setProps 2 emptyIdProps = Some (projection emptyIdRows)"
    by code_simp
  moreover have "jumpToParent emptyIdRows (map key emptyIdRows) (2 - 1) 1 = Inr (Some '''')"
    by code_simp
  moreover have "onKeyDown platform emptyIdProps (projection emptyIdRows) (keyEvent ''ArrowLeft'')
        = Inr [PreventDefault]"
  proof -
    have "selected emptyIdProps = Some ''a''" by (simp add: emptyIdProps_def)
    moreover have "''a'' \<in> set (flatKeys (projection emptyIdRows))"
      by (simp add: projection_def emptyIdRows_def)
    moreover have "lookup (elements emptyIdProps) ''a'' = Some (node ''a'' False [])"
      by (simp add: lookup_def emptyIdProps_def emptyIdStore_def)
    moreover have "ekey (keyEvent ''ArrowLeft'') = ''ArrowLeft''" by (simp add: keyEvent_def)
    ultimately show ?thesis
      by (simp add: onKeyDown_ArrowLeft projection_def emptyIdRows_def node_def truthy_def)
  qed
  ultimately show ?thesis by simp
qed

text \<open>
  Claim C6, at a node whose \<^verbatim>\<open>children\<close> field is \<^verbatim>\<open>null\<close>. The node is
  flattened like any childless node, but \<^verbatim>\<open>ArrowRight\<close> on it reads
  \<^verbatim>\<open>selectedElement.children.length\<close> and throws.
\<close>

theorem arrow_right_null_children:
  "setProps 1 nullChildrenProps = Some (projection nullChildrenRows)
   \<and> onKeyDown platform nullChildrenProps (projection nullChildrenRows) (keyEvent ''ArrowRight'')
        = Inl TypeError"
proof -
  have "setProps 1 nullChildrenProps = Some (projection nullChildrenRows)"
    by code_simp
  moreover have "onKeyDown platform nullChildrenProps (projection nullChildrenRows)
                   (keyEvent ''ArrowRight'') = Inl TypeError"
  proof -
    have "selected nullChildrenProps = Some ''A''" by (simp add: nullChildrenProps_def)
    moreover have "''A'' \<in> set (flatKeys (projection nullChildrenRows))"
      by (simp add: projection_def nullChildrenRows_def)
    moreover have "lookup (elements nullChildrenProps) ''A'' = Some nullChildrenNode"
      by (simp add: lookup_def nullChildrenProps_def)
    moreover have "ekey (keyEvent ''ArrowRight'') = ''ArrowRight''" by (simp add: keyEvent_def)
    ultimately show ?thesis
      by (simp add: onKeyDown_ArrowRight nullChildrenNode_def)
  qed
  ultimately show ?thesis by simp
qed

section \<open>Levels along the traversal\<close>

declare countChildren.simps [simp del]

lemma countChildren_takeWhile:
  "countChildren fe row i c =
     c + length (takeWhile (\<lambda>child. level row < level child) (drop i fe))"
proof (induction fe row i c rule: countChildren.induct)
  case (1 fe row i c)
  show ?case
  proof (cases "i < length fe")
    case False
    then show ?thesis by (subst countChildren.simps) simp
  next
    case inside: True
    then have cut: "drop i fe = fe ! i # drop (Suc i) fe"
      by (simp add: Cons_nth_drop_Suc)
    show ?thesis
    proof (cases "level (fe ! i) \<le> level row")
      case True
      with inside show ?thesis by (subst countChildren.simps) (simp add: cut)
    next
      case False
      from "1.IH" [OF inside False] inside False show ?thesis
        by (subst countChildren.simps) (simp add: cut)
    qed
  qed
qed

lemma preorder_levels:
  "preorder_walk els k lvl rows \<Longrightarrow> \<forall>r\<in>set rows. lvl \<le> level r"
  "preorder_children els cs lvl rows \<Longrightarrow> \<forall>r\<in>set rows. lvl \<le> level r"
  by (induction rule: preorder_walk_preorder_children.inducts) auto

lemma preorder_children_levels:
  "preorder_children els cs lvl rows \<Longrightarrow> r \<in> set rows \<Longrightarrow> lvl \<le> level r"
  using preorder_levels(2) by blast

lemma preorder_walk_head:
  assumes "preorder_walk els k lvl rows" "rows \<noteq> []"
  shows "key (hd rows) = k \<and> level (hd rows) = lvl \<and> els k = Some (element (hd rows))
         \<and> (\<forall>r\<in>set (tl rows). lvl < level r)"
  using assms
proof (cases rule: preorder_walk.cases)
  case skip
  with assms(2) show ?thesis by simp
next
  case (stay el)
  then show ?thesis by simp
next
  case (descend el kids)
  from preorder_levels(2) [OF descend(5)] have "\<forall>r\<in>set kids. lvl + 1 \<le> level r" .
  then have "\<forall>r\<in>set kids. lvl < level r" by auto
  with descend show ?thesis by simp
qed

lemma preorder_children_head:
  "preorder_children els cs lvl rows \<Longrightarrow> rows \<noteq> [] \<Longrightarrow> level (hd rows) = lvl"
proof (induction cs arbitrary: rows)
  case Nil
  from Nil.prems(1) have "rows = []" by (cases rule: preorder_children.cases) simp_all
  with Nil.prems(2) show ?case by simp
next
  case (Cons c cs)
  from Cons.prems(1) obtain rows1 rows2 where parts: "rows = rows1 @ rows2"
    "preorder_walk els c lvl rows1" "preorder_children els cs lvl rows2"
    by (cases rule: preorder_children.cases) simp_all
  show ?case
  proof (cases "rows1 = []")
    case True
    with parts Cons.prems(2) Cons.IH [of rows2] show ?thesis by simp
  next
    case False
    with preorder_walk_head [OF parts(2)] parts(1) show ?thesis by simp
  qed
qed

text \<open>
  Every row of a traversal is followed by the traversal of its own node, and
  what comes after that is no deeper than the row. The rows that follow the
  traversal at hand are a parameter, so that the statement passes through the
  loop over the children.
\<close>

lemma subtree_rows:
  "preorder_walk els k lvl rows \<Longrightarrow>
     \<forall>rest i. (rest = [] \<or> level (hd rest) \<le> lvl) \<longrightarrow> i < length rows \<longrightarrow>
       (\<exists>sub after. drop i (rows @ rest) = sub @ after
          \<and> preorder_walk els (key (rows ! i)) (level (rows ! i)) sub
          \<and> (after = [] \<or> level (hd after) \<le> level (rows ! i)))"
  "preorder_children els cs lvl rows \<Longrightarrow>
     \<forall>rest i. (rest = [] \<or> level (hd rest) \<le> lvl) \<longrightarrow> i < length rows \<longrightarrow>
       (\<exists>sub after. drop i (rows @ rest) = sub @ after
          \<and> preorder_walk els (key (rows ! i)) (level (rows ! i)) sub
          \<and> (after = [] \<or> level (hd after) \<le> level (rows ! i)))"
proof (induction rule: preorder_walk_preorder_children.inducts)
  case (skip els k lvl)
  then show ?case by simp
next
  case (stay els k el lvl)
  let ?r = "\<lparr>key = k, element = el, level = lvl\<rparr>"
  show ?case
  proof (intro allI impI)
    fix rest :: "FlatElement list" and i
    assume rest: "rest = [] \<or> level (hd rest) \<le> lvl" and "i < length [?r]"
    then have i: "i = 0" by simp
    have "preorder_walk els k lvl [?r]"
      using stay by (rule preorder_walk_preorder_children.stay)
    with rest i show "\<exists>sub after. drop i ([?r] @ rest) = sub @ after
          \<and> preorder_walk els (key ([?r] ! i)) (level ([?r] ! i)) sub
          \<and> (after = [] \<or> level (hd after) \<le> level ([?r] ! i))"
      by (intro exI [of _ "[?r]"] exI [of _ rest]) simp
  qed
next
  case (descend els k el lvl kids)
  let ?r = "\<lparr>key = k, element = el, level = lvl\<rparr>"
  show ?case
  proof (intro allI impI)
    fix rest :: "FlatElement list" and i
    assume rest: "rest = [] \<or> level (hd rest) \<le> lvl" and i: "i < length (?r # kids)"
    show "\<exists>sub after. drop i ((?r # kids) @ rest) = sub @ after
          \<and> preorder_walk els (key ((?r # kids) ! i)) (level ((?r # kids) ! i)) sub
          \<and> (after = [] \<or> level (hd after) \<le> level ((?r # kids) ! i))"
    proof (cases i)
      case 0
      have "preorder_walk els k lvl (?r # kids)"
        using descend.hyps by (rule preorder_walk_preorder_children.descend)
      with rest 0 show ?thesis
        by (intro exI [of _ "?r # kids"] exI [of _ rest]) simp
    next
      case (Suc j)
      with i have j: "j < length kids" by simp
      from rest have "rest = [] \<or> level (hd rest) \<le> lvl + 1" by auto
      with descend.IH j obtain sub after where
        "drop j (kids @ rest) = sub @ after"
        "preorder_walk els (key (kids ! j)) (level (kids ! j)) sub"
        "after = [] \<or> level (hd after) \<le> level (kids ! j)"
        by blast
      with Suc show ?thesis by auto
    qed
  qed
next
  case (done_children els lvl)
  then show ?case by simp
next
  case (next_child els c lvl rows1 cs rows2)
  show ?case
  proof (intro allI impI)
    fix rest :: "FlatElement list" and i
    assume rest: "rest = [] \<or> level (hd rest) \<le> lvl" and i: "i < length (rows1 @ rows2)"
    show "\<exists>sub after. drop i ((rows1 @ rows2) @ rest) = sub @ after
          \<and> preorder_walk els (key ((rows1 @ rows2) ! i)) (level ((rows1 @ rows2) ! i)) sub
          \<and> (after = [] \<or> level (hd after) \<le> level ((rows1 @ rows2) ! i))"
    proof (cases "i < length rows1")
      case True
      have "rows2 @ rest = [] \<or> level (hd (rows2 @ rest)) \<le> lvl"
      proof (cases "rows2 = []")
        case True
        with rest show ?thesis by simp
      next
        case False
        with preorder_children_head [OF next_child.hyps(2)] show ?thesis by simp
      qed
      with next_child.IH(1) True obtain sub after where
        "drop i (rows1 @ (rows2 @ rest)) = sub @ after"
        "preorder_walk els (key (rows1 ! i)) (level (rows1 ! i)) sub"
        "after = [] \<or> level (hd after) \<le> level (rows1 ! i)"
        by blast
      with True show ?thesis by (auto simp: nth_append)
    next
      case False
      with i have j: "i - length rows1 < length rows2" by simp
      with next_child.IH(2) rest obtain sub after where
        "drop (i - length rows1) (rows2 @ rest) = sub @ after"
        "preorder_walk els (key (rows2 ! (i - length rows1))) (level (rows2 ! (i - length rows1))) sub"
        "after = [] \<or> level (hd after) \<le> level (rows2 ! (i - length rows1))"
        by blast
      with False show ?thesis by (auto simp: nth_append)
    qed
  qed
qed

section \<open>The subtree of a row and the count of its rows\<close>

lemma preorder_walk_nonempty:
  assumes "preorder_walk els k lvl rows" "els k = Some el"
  shows "rows \<noteq> []"
  using assms(1)
proof (cases rule: preorder_walk.cases)
  case skip
  with assms(2) show ?thesis by simp
next
  case (stay el')
  then show ?thesis by simp
next
  case (descend el' kids)
  then show ?thesis by simp
qed

lemma takeWhile_prefix_stop:
  assumes "\<forall>x\<in>set xs. P x" "ys = [] \<or> \<not> P (hd ys)"
  shows "takeWhile P (xs @ ys) = xs"
proof -
  from assms(2) have "takeWhile P ys = []" by (cases ys) auto
  with assms(1) show ?thesis by (simp add: takeWhile_append2)
qed

lemma setProps_rows:
  assumes "setProps n props = Some st" "index < length (flatElements st)"
  obtains r where "root props = Some r" "preorder_walk (lookup (elements props)) r 1 (flatElements st)"
    "st = projection (flatElements st)"
  using setProps_result [OF assms(1)] assms(2)
  by (auto simp: initialState_def projection_def)

text \<open>
  Claim C7. For the row at an index of a flattened sequence, the
  \<^verbatim>\<open>childrenCount\<close> that \<^verbatim>\<open>buildRow\<close> computes is the number of rows that follow
  it with a strictly greater level, up to the first row whose level is not
  greater. That is the size of the visible subtree of the row's node: the
  traversal of that node alone has one row more. It is \<open>0\<close> for a node that is
  collapsed or has no children.
\<close>

theorem childrenCount_subtree:
  assumes "setProps n props = Some st" "index < length (flatElements st)"
  shows "row_childrenCount (buildRow props st (flatElements st ! index) index) =
           length (takeWhile (\<lambda>child. level (flatElements st ! index) < level child)
                     (drop (index + 1) (flatElements st)))
       \<and> (\<exists>sub. preorder_walk (lookup (elements props)) (key (flatElements st ! index))
                    (level (flatElements st ! index)) sub
              \<and> length sub =
                  Suc (row_childrenCount (buildRow props st (flatElements st ! index) index)))
       \<and> (\<not> (hasChildren (element (flatElements st ! index))
               \<and> expanded (element (flatElements st ! index))) \<longrightarrow>
            row_childrenCount (buildRow props st (flatElements st ! index) index) = 0)"
proof -
  let ?rows = "flatElements st"
  let ?row = "?rows ! index"
  let ?deeper = "\<lambda>child. level ?row < level child"
  let ?count = "row_childrenCount (buildRow props st ?row index)"
  have count: "?count = length (takeWhile ?deeper (drop (index + 1) ?rows))"
    by (simp add: buildRow_def countChildren_takeWhile)
  from assms obtain r where walk: "preorder_walk (lookup (elements props)) r 1 ?rows"
    by (rule setProps_rows)
  from assms(2) have mem: "?row \<in> set ?rows" by simp
  with preorder_rows_in_store(1) [OF walk]
  have stored: "lookup (elements props) (key ?row) = Some (element ?row)" by simp
  from subtree_rows(1) [OF walk] assms(2) obtain sub after where
    cut: "drop index (?rows @ []) = sub @ after"
    and sub: "preorder_walk (lookup (elements props)) (key ?row) (level ?row) sub"
    and after: "after = [] \<or> level (hd after) \<le> level ?row"
    by blast
  from preorder_walk_nonempty [OF sub stored] have nonempty: "sub \<noteq> []" .
  from preorder_walk_head [OF sub nonempty] have below: "\<forall>x\<in>set (tl sub). ?deeper x" by simp
  from after have stop: "after = [] \<or> \<not> ?deeper (hd after)" by auto
  have "drop (index + 1) ?rows = tl (drop index ?rows)" by (simp add: drop_Suc tl_drop)
  also from cut nonempty have "\<dots> = tl sub @ after" by simp
  finally have "takeWhile ?deeper (drop (index + 1) ?rows) = tl sub"
    using takeWhile_prefix_stop [OF below stop] by simp
  with count nonempty have size: "length sub = Suc ?count" by simp
  have "?count = 0" if "\<not> (hasChildren (element ?row) \<and> expanded (element ?row))"
  proof -
    from stored that
    have "preorder_walk (lookup (elements props)) (key ?row) (level ?row)
            [\<lparr>key = key ?row, element = element ?row, level = level ?row\<rparr>]"
      by (rule preorder_walk_preorder_children.stay)
    from preorder_walk_unique [OF sub this] size show ?thesis by simp
  qed
  with count sub size show ?thesis by blast
qed

theorem childrenCount_subtree_witness:
  "setProps 3 (exampleProps None) = Some (projection exampleRows)
   \<and> row_childrenCount (buildRow (exampleProps None) (projection exampleRows)
        (exampleRows ! 1) 1) = 1
   \<and> (\<exists>sub. preorder_walk (lookup exampleStore) ''B'' 2 sub \<and> length sub = 2)"
proof -
  have flat: "setProps 3 (exampleProps None) = Some (projection exampleRows)"
    by code_simp
  have index: "1 < length (flatElements (projection exampleRows))"
    by (simp add: projection_def exampleRows_def)
  have count: "row_childrenCount (buildRow (exampleProps None) (projection exampleRows)
        (exampleRows ! 1) 1) = 1"
    by (simp add: buildRow_def countChildren_takeWhile projection_def exampleRows_def)
  have row: "flatElements (projection exampleRows) ! 1 = exampleRows ! 1"
    by (simp add: projection_def)
  have kl: "key (exampleRows ! 1) = ''B''" "level (exampleRows ! 1) = 2"
    "elements (exampleProps None) = exampleStore"
    by (simp_all add: exampleRows_def exampleProps_def)
  from childrenCount_subtree [OF flat index, unfolded row kl count] flat count show ?thesis
    by (auto simp: numeral_2_eq_2)
qed

lemma childrenCount_example:
  "map (\<lambda>i. row_childrenCount (buildRow (exampleProps None) (projection exampleRows)
                (exampleRows ! i) i)) [0, 1, 2, 3] = [3, 1, 0, 0]"
  by (simp add: buildRow_def countChildren_takeWhile projection_def exampleRows_def)

section \<open>Absent identities\<close>

lemma seed_children_append:
  "seed_children n els (before @ after) lvl st =
     (case seed_children n els before lvl st of
        None \<Rightarrow> None
      | Some st1 \<Rightarrow> seed_children n els after lvl st1)"
  by (induction before arbitrary: st) (auto split: option.splits)

lemma seed_absent: "lookup els k = None \<Longrightarrow> seed (Suc n) els k lvl st = Some st"
  by simp

text \<open>
  Without a root identity the projection is empty, whatever the store. An
  identity that has no node in the store and does not name a member of the
  prototype, be it the root or a child met in the loop, leaves the three
  variables of the walk as they are: it adds no row, nothing below it is
  visited, and the loop over the children goes on as if the identity were not
  in the list. Nothing is thrown.
\<close>

lemma flatten_skips_unknown:
  "(root props = None \<longrightarrow>
      setProps n props = Some \<lparr>flatKeys = [], flatElements = [], maxDepth = 0\<rparr>)
   \<and> (root props = Some r \<and> elements props r = None \<and> r \<notin> set prototypeMembers \<longrightarrow>
      setProps (Suc n) props = Some \<lparr>flatKeys = [], flatElements = [], maxDepth = 0\<rparr>)
   \<and> (els k = None \<and> k \<notin> set prototypeMembers \<longrightarrow>
        seed (Suc n) els k lvl st = Some st
      \<and> seed_children (Suc n) els (before @ k # after) lvl st =
          seed_children (Suc n) els (before @ after) lvl st)"
proof (intro conjI impI)
  assume "root props = None"
  then show "setProps n props = Some \<lparr>flatKeys = [], flatElements = [], maxDepth = 0\<rparr>"
    by (simp add: setProps_def initialState_def)
next
  assume "root props = Some r \<and> elements props r = None \<and> r \<notin> set prototypeMembers"
  then have "root props = Some r" "lookup (elements props) r = None"
    by (simp_all add: lookup_None_iff)
  then show "setProps (Suc n) props = Some \<lparr>flatKeys = [], flatElements = [], maxDepth = 0\<rparr>"
    by (simp add: setProps_def initialState_def)
next
  assume "els k = None \<and> k \<notin> set prototypeMembers"
  then have "lookup els k = None" by (simp add: lookup_None_iff)
  then show "seed (Suc n) els k lvl st = Some st" by (rule seed_absent)
next
  assume "els k = None \<and> k \<notin> set prototypeMembers"
  then have absent: "lookup els k = None" by (simp add: lookup_None_iff)
  have "seed_children (Suc n) els (k # after) lvl st1 = seed_children (Suc n) els after lvl st1"
    for st1
    using absent by simp
  then show "seed_children (Suc n) els (before @ k # after) lvl st =
          seed_children (Suc n) els (before @ after) lvl st"
    by (simp only: seed_children_append)
qed

text \<open>
  Claim C3, at an identity that has no node in the store and names a member
  of the prototype. In an empty store the root identity \<open>constructor\<close> has no
  node, yet the flattened sequence has a row for it. In the store that holds
  \<open>A\<close> and \<open>B\<close> only, where \<open>A\<close> lists \<open>constructor\<close> and \<open>B\<close>, the child
  \<open>constructor\<close> has no node, yet it contributes the second of three rows: the
  read at line 454 finds the member that the store object inherits, and the
  test at line 455 lets it pass.
\<close>

theorem flatten_inherited_member:
  "elements emptyStoreProps ''constructor'' = None
   \<and> setProps 1 emptyStoreProps =
       Some \<lparr>flatKeys = [''constructor''],
             flatElements = [\<lparr>key = ''constructor'', element = inherited ''constructor'',
                              level = 1\<rparr>],
             maxDepth = 1\<rparr>
   \<and> elements inheritedProps ''constructor'' = None
   \<and> setProps 2 inheritedProps = Some (projection inheritedRows)
   \<and> flatKeys (projection inheritedRows) = [''A'', ''constructor'', ''B'']"
  by code_simp

section \<open>The guards at an inherited member\<close>

text \<open>
  Claim C9, at a selected identity that has no node in the store and names a
  member of the prototype. The store holds \<open>A\<close> and \<open>B\<close> only, \<open>A\<close> lists
  \<open>constructor\<close> and \<open>B\<close>, and \<open>constructor\<close> is selected. The read at line 505
  finds the member that the store object inherits, so the third guard lets
  the identity pass: the arrow keys change the selection, \<^verbatim>\<open>ArrowRight\<close> throws
  on the undefined \<^verbatim>\<open>children\<close>, and the copy shortcut writes the name of the
  member to the clipboard.
\<close>

theorem onKeyDown_inherited_member:
  "elements inheritedProps ''constructor'' = None
   \<and> selected inheritedProps = Some ''constructor''
   \<and> setProps 2 inheritedProps = Some (projection inheritedRows)
   \<and> onKeyDown ''linux'' inheritedProps (projection inheritedRows) (keyEvent ''ArrowUp'')
       = Inr [PreventDefault, ElementSelected ''A'']
   \<and> onKeyDown ''linux'' inheritedProps (projection inheritedRows) (keyEvent ''ArrowDown'')
       = Inr [PreventDefault, ElementSelected ''B'']
   \<and> onKeyDown ''linux'' inheritedProps (projection inheritedRows) (keyEvent ''ArrowLeft'')
       = Inr [PreventDefault, ElementSelected ''A'']
   \<and> onKeyDown ''linux'' inheritedProps (projection inheritedRows) (keyEvent ''ArrowRight'')
       = Inl TypeError
   \<and> onKeyDown ''linux'' inheritedProps (projection inheritedRows)
         \<lparr>ekey = ''c'', metaKey = False, ctrlKey = True, altKey = False\<rparr>
       = Inr [PreventDefault, ClipboardWriteText (utf16 ''Object'')]"
  by code_simp

section \<open>When the walk returns and when it repeats no identity\<close>

lemma childEdgesI:
  "els k = Some el \<Longrightarrow> expanded el \<Longrightarrow> hasChildren el \<Longrightarrow> c \<in> set (the (children el))
     \<Longrightarrow> (k, c) \<in> childEdges els"
  by (auto simp: childEdges_def)

lemma preorder_children_exist:
  "\<forall>c\<in>set cs. \<exists>rows. preorder_walk els c lvl rows \<Longrightarrow> \<exists>rows. preorder_children els cs lvl rows"
proof (induction cs)
  case Nil
  show ?case using preorder_walk_preorder_children.done_children by blast
next
  case (Cons c cs)
  from Cons.prems obtain rows1 where "preorder_walk els c lvl rows1" by auto
  moreover from Cons obtain rows2 where "preorder_children els cs lvl rows2" by auto
  ultimately have "preorder_children els (c # cs) lvl (rows1 @ rows2)"
    by (rule preorder_walk_preorder_children.next_child)
  then show ?case ..
qed


lemma preorder_keys_reachable:
  "preorder_walk els k lvl rows \<Longrightarrow> \<forall>r\<in>set rows. (k, key r) \<in> (childEdges els)\<^sup>*"
  "preorder_children els cs lvl rows \<Longrightarrow>
     \<forall>r\<in>set rows. \<exists>c\<in>set cs. (c, key r) \<in> (childEdges els)\<^sup>*"
proof (induction rule: preorder_walk_preorder_children.inducts)
  case (skip els k lvl)
  show ?case by simp
next
  case (stay els k el lvl)
  show ?case by simp
next
  case (descend els k el lvl kids)
  have "(k, key r) \<in> (childEdges els)\<^sup>*" if "r \<in> set kids" for r
  proof -
    from descend.IH that obtain c where c: "c \<in> set (the (children el))"
      "(c, key r) \<in> (childEdges els)\<^sup>*" by blast
    from descend.hyps(1-3) c(1) have "(k, c) \<in> childEdges els" by (simp add: childEdgesI)
    from this c(2) show ?thesis by (rule converse_rtrancl_into_rtrancl)
  qed
  then show ?case by simp
next
  case (done_children els lvl)
  show ?case by simp
next
  case (next_child els c lvl rows1 cs rows2)
  then show ?case by auto
qed


lemma childEdges_lookup: "childEdges (lookup els) = childEdges els"
  by (auto simp: childEdges_def lookup_def inherited_def split: option.splits if_splits)


lemma edge_source_stored: "(a, b) \<in> childEdges els \<Longrightarrow> els a \<noteq> None"
  by (auto simp: childEdges_def)

lemma path_stored:
  assumes "(b, x) \<in> (childEdges els)\<^sup>*" "els x \<noteq> None"
  shows "els b \<noteq> None"
  using assms by (auto elim: converse_rtranclE dest: edge_source_stored)

lemma preorder_walk_absent:
  assumes "preorder_walk els k lvl rows" "els k = None"
  shows "rows = []"
  using assms by (cases rule: preorder_walk.cases) simp_all

lemma reach_walk_exists:
  assumes "\<forall>k c. (r, k) \<in> (childEdges els)\<^sup>* \<and> (k, c) \<in> childEdges els \<longrightarrow> rank c < (rank k :: nat)"
    and "(r, k) \<in> (childEdges els)\<^sup>*"
  shows "\<exists>rows. preorder_walk els k lvl rows"
  using assms(2)
proof (induction "rank k" arbitrary: k lvl rule: less_induct)
  case less
  show ?case
  proof (cases "els k")
    case None
    then have "preorder_walk els k lvl []" by (rule preorder_walk_preorder_children.skip)
    then show ?thesis ..
  next
    case (Some el)
    show ?thesis
    proof (cases "hasChildren el \<and> expanded el")
      case False
      with Some have "preorder_walk els k lvl [\<lparr>key = k, element = el, level = lvl\<rparr>]"
        by (rule preorder_walk_preorder_children.stay)
      then show ?thesis ..
    next
      case True
      have "\<forall>c\<in>set (the (children el)). \<exists>rows. preorder_walk els c (lvl + 1) rows"
      proof
        fix c assume "c \<in> set (the (children el))"
        with Some True have edge: "(k, c) \<in> childEdges els" by (simp add: childEdgesI)
        with assms(1) less.prems have "rank c < (rank k :: nat)" by blast
        moreover from less.prems edge have "(r, c) \<in> (childEdges els)\<^sup>*"
          by (rule rtrancl_into_rtrancl)
        ultimately show "\<exists>rows. preorder_walk els c (lvl + 1) rows" by (rule less.hyps)
      qed
      from preorder_children_exist [OF this] obtain kids where
        "preorder_children els (the (children el)) (lvl + 1) kids" ..
      with Some True
      have "preorder_walk els k lvl (\<lparr>key = k, element = el, level = lvl\<rparr> # kids)"
        by (simp add: preorder_walk_preorder_children.descend)
      then show ?thesis ..
    qed
  qed
qed

lemma rank_reachable:
  assumes "\<forall>k c. (r, k) \<in> (childEdges els)\<^sup>* \<and> (k, c) \<in> childEdges els \<longrightarrow> rank c < (rank k :: nat)"
    and "(r, a) \<in> (childEdges els)\<^sup>*" "(a, b) \<in> (childEdges els)\<^sup>*"
  shows "rank b \<le> rank a"
  using assms(3)
proof (induction rule: rtrancl_induct)
  case base
  show ?case by simp
next
  case (step y z)
  from assms(2) step.hyps(1) have "(r, y) \<in> (childEdges els)\<^sup>*" by (rule rtrancl_trans)
  with assms(1) step.hyps(2) have "rank z < rank y" by blast
  with step.IH show ?case by simp
qed

lemma rank_below:
  assumes "\<forall>k c. (r, k) \<in> (childEdges els)\<^sup>* \<and> (k, c) \<in> childEdges els \<longrightarrow> rank c < (rank k :: nat)"
    and "(r, a) \<in> (childEdges els)\<^sup>*" "(a, b) \<in> (childEdges els)\<^sup>+"
  shows "rank b < rank a"
proof -
  from assms(3) obtain y where y: "(a, y) \<in> (childEdges els)\<^sup>*" "(y, b) \<in> childEdges els"
    by (auto dest: tranclD2)
  from assms(2) y(1) have "(r, y) \<in> (childEdges els)\<^sup>*" by (rule rtrancl_trans)
  with assms(1) y(2) have "rank b < rank y" by blast
  with rank_reachable [OF assms(1,2) y(1)] show ?thesis by simp
qed

lemma single_parent_chain:
  assumes "\<forall>k1 k2 c. (r, k1) \<in> (childEdges els)\<^sup>* \<and> (r, k2) \<in> (childEdges els)\<^sup>*
              \<and> (k1, c) \<in> childEdges els \<and> (k2, c) \<in> childEdges els \<and> els c \<noteq> None
            \<longrightarrow> k1 = k2"
    and "(r, c1) \<in> (childEdges els)\<^sup>*" "(r, c2) \<in> (childEdges els)\<^sup>*"
    and "(c1, x) \<in> (childEdges els)\<^sup>*" "(c2, x) \<in> (childEdges els)\<^sup>*" "els x \<noteq> None"
  shows "(c1, c2) \<in> (childEdges els)\<^sup>* \<or> (c2, c1) \<in> (childEdges els)\<^sup>*"
  using assms(4,5,6)
proof (induction rule: rtrancl_induct)
  case base
  then show ?case by simp
next
  case (step y z)
  from step.prems(1) show ?case
  proof (cases rule: rtranclE)
    case base
    with step.hyps have "(c1, c2) \<in> (childEdges els)\<^sup>*" by auto
    then show ?thesis ..
  next
    case (step y')
    from assms(2) \<open>(c1, y) \<in> (childEdges els)\<^sup>*\<close> have ry: "(r, y) \<in> (childEdges els)\<^sup>*"
      by (rule rtrancl_trans)
    from assms(3) step(1) have ry': "(r, y') \<in> (childEdges els)\<^sup>*"
      by (rule rtrancl_trans)
    from assms(1) ry ry' \<open>(y, z) \<in> childEdges els\<close> step(2) \<open>els z \<noteq> None\<close>
    have "y = y'" by blast
    moreover from \<open>(y, z) \<in> childEdges els\<close> have "els y \<noteq> None" by (rule edge_source_stored)
    ultimately show ?thesis using step(1) by (intro step.IH) simp_all
  qed
qed

lemma siblings_apart:
  assumes rank: "\<forall>k c. (r, k) \<in> (childEdges els)\<^sup>* \<and> (k, c) \<in> childEdges els
                   \<longrightarrow> rank c < (rank k :: nat)"
    and single: "\<forall>k1 k2 c. (r, k1) \<in> (childEdges els)\<^sup>* \<and> (r, k2) \<in> (childEdges els)\<^sup>*
              \<and> (k1, c) \<in> childEdges els \<and> (k2, c) \<in> childEdges els \<and> els c \<noteq> None
            \<longrightarrow> k1 = k2"
    and p: "(r, p) \<in> (childEdges els)\<^sup>*"
    and edges: "(p, c1) \<in> childEdges els" "(p, c2) \<in> childEdges els" "c1 \<noteq> c2"
    and paths: "(c1, x) \<in> (childEdges els)\<^sup>*" "(c2, x) \<in> (childEdges els)\<^sup>*"
    and x: "els x \<noteq> None"
  shows False
proof -
  have below: False
    if e: "(p, a) \<in> childEdges els" "(p, b) \<in> childEdges els" and "a \<noteq> b"
      and path: "(a, b) \<in> (childEdges els)\<^sup>*" and b: "els b \<noteq> None" for a b
  proof -
    from path \<open>a \<noteq> b\<close> obtain y where y: "(a, y) \<in> (childEdges els)\<^sup>*" "(y, b) \<in> childEdges els"
      by (auto elim: rtranclE)
    from p e(1) have ra: "(r, a) \<in> (childEdges els)\<^sup>*" by (rule rtrancl_into_rtrancl)
    from ra y(1) have ry: "(r, y) \<in> (childEdges els)\<^sup>*" by (rule rtrancl_trans)
    from single ry p y(2) e(2) b have "y = p" by blast
    with y(1) have "rank p \<le> rank a" using rank_reachable [OF rank ra] by simp
    moreover from rank p e(1) have "rank a < rank p" by blast
    ultimately show False by simp
  qed
  from p edges(1) have r1: "(r, c1) \<in> (childEdges els)\<^sup>*" by (rule rtrancl_into_rtrancl)
  from p edges(2) have r2: "(r, c2) \<in> (childEdges els)\<^sup>*" by (rule rtrancl_into_rtrancl)
  from paths(1) x have s1: "els c1 \<noteq> None" by (rule path_stored)
  from paths(2) x have s2: "els c2 \<noteq> None" by (rule path_stored)
  from single_parent_chain [OF single r1 r2 paths x] show False
  proof
    assume "(c1, c2) \<in> (childEdges els)\<^sup>*"
    with edges s2 show False by (intro below [of c1 c2])
  next
    assume "(c2, c1) \<in> (childEdges els)\<^sup>*"
    with edges s1 show False by (intro below [of c2 c1]) simp_all
  qed
qed

lemma single_references_distinct:
  "preorder_walk els k lvl rows \<Longrightarrow>
     (\<forall>k c. (r, k) \<in> (childEdges els)\<^sup>* \<and> (k, c) \<in> childEdges els \<longrightarrow> rank c < (rank k :: nat))
     \<and> (\<forall>k1 k2 c. (r, k1) \<in> (childEdges els)\<^sup>* \<and> (r, k2) \<in> (childEdges els)\<^sup>*
              \<and> (k1, c) \<in> childEdges els \<and> (k2, c) \<in> childEdges els \<and> els c \<noteq> None
            \<longrightarrow> k1 = k2)
     \<and> (\<forall>k el. (r, k) \<in> (childEdges els)\<^sup>* \<and> els k = Some el \<and> expanded el \<and> hasChildren el
            \<longrightarrow> distinct (filter (\<lambda>c. els c \<noteq> None) (the (children el))))
     \<and> (r, k) \<in> (childEdges els)\<^sup>*
     \<longrightarrow> distinct (map key rows)"
  "preorder_children els cs lvl rows \<Longrightarrow>
     (\<forall>k c. (r, k) \<in> (childEdges els)\<^sup>* \<and> (k, c) \<in> childEdges els \<longrightarrow> rank c < (rank k :: nat))
     \<and> (\<forall>k1 k2 c. (r, k1) \<in> (childEdges els)\<^sup>* \<and> (r, k2) \<in> (childEdges els)\<^sup>*
              \<and> (k1, c) \<in> childEdges els \<and> (k2, c) \<in> childEdges els \<and> els c \<noteq> None
            \<longrightarrow> k1 = k2)
     \<and> (\<forall>k el. (r, k) \<in> (childEdges els)\<^sup>* \<and> els k = Some el \<and> expanded el \<and> hasChildren el
            \<longrightarrow> distinct (filter (\<lambda>c. els c \<noteq> None) (the (children el))))
     \<longrightarrow> (\<forall>p. (r, p) \<in> (childEdges els)\<^sup>* \<and> distinct (filter (\<lambda>c. els c \<noteq> None) cs)
               \<and> (\<forall>c\<in>set cs. (p, c) \<in> childEdges els)
           \<longrightarrow> distinct (map key rows))"
proof (induction rule: preorder_walk_preorder_children.inducts)
  case (skip els k lvl)
  show ?case by simp
next
  case (stay els k el lvl)
  show ?case by simp
next
  case (descend els k el lvl kids)
  show ?case
  proof (intro impI, elim conjE)
    assume rank: "\<forall>k c. (r, k) \<in> (childEdges els)\<^sup>* \<and> (k, c) \<in> childEdges els
                    \<longrightarrow> rank c < (rank k :: nat)"
      and single: "\<forall>k1 k2 c. (r, k1) \<in> (childEdges els)\<^sup>* \<and> (r, k2) \<in> (childEdges els)\<^sup>*
              \<and> (k1, c) \<in> childEdges els \<and> (k2, c) \<in> childEdges els \<and> els c \<noteq> None
            \<longrightarrow> k1 = k2"
      and lists: "\<forall>k el. (r, k) \<in> (childEdges els)\<^sup>* \<and> els k = Some el \<and> expanded el
                     \<and> hasChildren el
            \<longrightarrow> distinct (filter (\<lambda>c. els c \<noteq> None) (the (children el)))"
      and k: "(r, k) \<in> (childEdges els)\<^sup>*"
    have edges: "\<forall>c\<in>set (the (children el)). (k, c) \<in> childEdges els"
      using descend.hyps(1-3) by (simp add: childEdgesI)
    from lists k descend.hyps(1-3)
    have "distinct (filter (\<lambda>c. els c \<noteq> None) (the (children el)))" by blast
    with descend.IH rank single lists k edges have kids: "distinct (map key kids)" by blast
    have "key row \<noteq> k" if "row \<in> set kids" for row
    proof -
      from preorder_keys_reachable(2) [OF descend.hyps(4)] that obtain c where
        c: "c \<in> set (the (children el))" "(c, key row) \<in> (childEdges els)\<^sup>*" by blast
      from edges c(1) have edge: "(k, c) \<in> childEdges els" by simp
      from k edge have "(r, c) \<in> (childEdges els)\<^sup>*" by (rule rtrancl_into_rtrancl)
      from rank_reachable [OF rank this c(2)] have "rank (key row) \<le> rank c" .
      moreover from rank k edge have "rank c < (rank k :: nat)" by blast
      ultimately show ?thesis by auto
    qed
    with kids show "distinct (map key (\<lparr>key = k, element = el, level = lvl\<rparr> # kids))"
      by auto
  qed
next
  case (done_children els lvl)
  show ?case by simp
next
  case (next_child els c lvl rows1 cs rows2)
  show ?case
  proof (intro impI allI, elim conjE)
    fix p
    assume rank: "\<forall>k c. (r, k) \<in> (childEdges els)\<^sup>* \<and> (k, c) \<in> childEdges els
                    \<longrightarrow> rank c < (rank k :: nat)"
      and single: "\<forall>k1 k2 c. (r, k1) \<in> (childEdges els)\<^sup>* \<and> (r, k2) \<in> (childEdges els)\<^sup>*
              \<and> (k1, c) \<in> childEdges els \<and> (k2, c) \<in> childEdges els \<and> els c \<noteq> None
            \<longrightarrow> k1 = k2"
      and lists: "\<forall>k el. (r, k) \<in> (childEdges els)\<^sup>* \<and> els k = Some el \<and> expanded el
                     \<and> hasChildren el
            \<longrightarrow> distinct (filter (\<lambda>c. els c \<noteq> None) (the (children el)))"
      and p: "(r, p) \<in> (childEdges els)\<^sup>*"
      and apart: "distinct (filter (\<lambda>c. els c \<noteq> None) (c # cs))"
      and edges: "\<forall>c'\<in>set (c # cs). (p, c') \<in> childEdges els"
    from edges have edge: "(p, c) \<in> childEdges els" by simp
    from p edge have "(r, c) \<in> (childEdges els)\<^sup>*" by (rule rtrancl_into_rtrancl)
    with next_child.IH(1) rank single lists have d1: "distinct (map key rows1)" by blast
    from apart have "distinct (filter (\<lambda>c. els c \<noteq> None) cs)" by (simp split: if_splits)
    moreover from edges have "\<forall>c'\<in>set cs. (p, c') \<in> childEdges els" by simp
    ultimately have d2: "distinct (map key rows2)"
      using next_child.IH(2) rank single lists p by blast
    have "key r1 \<noteq> key r2" if "r1 \<in> set rows1" "r2 \<in> set rows2" for r1 r2
    proof
      assume same: "key r1 = key r2"
      have c: "els c \<noteq> None"
      proof
        assume "els c = None"
        with next_child.hyps(1) have "rows1 = []" by (rule preorder_walk_absent)
        with that(1) show False by simp
      qed
      from preorder_keys_reachable(1) [OF next_child.hyps(1)] that(1)
      have p1: "(c, key r1) \<in> (childEdges els)\<^sup>*" by simp
      from preorder_keys_reachable(2) [OF next_child.hyps(2)] that(2) obtain c' where
        c': "c' \<in> set cs" "(c', key r2) \<in> (childEdges els)\<^sup>*" by blast
      from preorder_rows_in_store(2) [OF next_child.hyps(2)] that(2)
      have x: "els (key r2) \<noteq> None" by auto
      from c'(2) x have "els c' \<noteq> None" by (rule path_stored)
      with c'(1) apart c have "c \<noteq> c'" by auto
      moreover from edges c'(1) have "(p, c') \<in> childEdges els" by simp
      ultimately show False
        using siblings_apart [OF rank single p edge _ _ _ c'(2) x] p1 same by simp
    qed
    with d1 d2 show "distinct (map key (rows1 @ rows2))" by auto
  qed
qed

lemma edge_child:
  assumes "(k, c) \<in> childEdges els" "els k = Some el"
  shows "expanded el \<and> hasChildren el \<and> c \<in> set (the (children el))"
  using assms by (auto simp: childEdges_def)

lemma preorder_keys_complete:
  "preorder_walk els k lvl rows \<Longrightarrow>
     \<forall>x. (k, x) \<in> (childEdges els)\<^sup>* \<and> els x \<noteq> None \<longrightarrow> x \<in> key ` set rows"
  "preorder_children els cs lvl rows \<Longrightarrow>
     \<forall>c\<in>set cs. \<forall>x. (c, x) \<in> (childEdges els)\<^sup>* \<and> els x \<noteq> None \<longrightarrow> x \<in> key ` set rows"
proof (induction rule: preorder_walk_preorder_children.inducts)
  case (skip els k lvl)
  show ?case
  proof (intro allI impI, elim conjE)
    fix x assume "(k, x) \<in> (childEdges els)\<^sup>*" "els x \<noteq> None"
    then have "els k \<noteq> None" by (rule path_stored)
    with skip show "x \<in> key ` set []" by simp
  qed
next
  case (stay els k el lvl)
  show ?case
  proof (intro allI impI, elim conjE)
    fix x assume "(k, x) \<in> (childEdges els)\<^sup>*" "els x \<noteq> None"
    from this(1) show "x \<in> key ` set [\<lparr>key = k, element = el, level = lvl\<rparr>]"
    proof (cases rule: converse_rtranclE)
      case base
      then show ?thesis by simp
    next
      case (step c)
      from edge_child [OF step(1) stay.hyps(1)] stay.hyps(2) show ?thesis by simp
    qed
  qed
next
  case (descend els k el lvl kids)
  show ?case
  proof (intro allI impI, elim conjE)
    fix x assume "(k, x) \<in> (childEdges els)\<^sup>*" and x: "els x \<noteq> None"
    from this(1) show "x \<in> key ` set (\<lparr>key = k, element = el, level = lvl\<rparr> # kids)"
    proof (cases rule: converse_rtranclE)
      case base
      then show ?thesis by simp
    next
      case (step c)
      from edge_child [OF step(1) descend.hyps(1)] have "c \<in> set (the (children el))" by simp
      with descend.IH step(2) x have "x \<in> key ` set kids" by blast
      then show ?thesis by simp
    qed
  qed
next
  case (done_children els lvl)
  show ?case by simp
next
  case (next_child els c lvl rows1 cs rows2)
  show ?case
  proof (intro ballI allI impI, elim conjE)
    fix c' x
    assume c': "c' \<in> set (c # cs)" and path: "(c', x) \<in> (childEdges els)\<^sup>*"
      and x: "els x \<noteq> None"
    show "x \<in> key ` set (rows1 @ rows2)"
    proof (cases "c' = c")
      case True
      with next_child.IH(1) path x have "x \<in> key ` set rows1" by blast
      then show ?thesis by auto
    next
      case False
      with c' have "c' \<in> set cs" by simp
      with next_child.IH(2) path x have "x \<in> key ` set rows2" by blast
      then show ?thesis by auto
    qed
  qed
qed

text \<open>
  The traversal of an identity holds, as a segment, the traversal of every
  identity that it reaches.
\<close>

lemma segmentI:
  "preorder_walk els y lvl' sub \<Longrightarrow> rows = before @ sub @ after \<Longrightarrow>
     \<exists>lvl' sub before after. preorder_walk els y lvl' sub \<and> rows = before @ sub @ after"
  by (intro exI conjI)

lemma preorder_walk_segment:
  "preorder_walk els k lvl rows \<Longrightarrow>
     \<forall>y. (k, y) \<in> (childEdges els)\<^sup>* \<longrightarrow>
       (\<exists>lvl' sub before after. preorder_walk els y lvl' sub \<and> rows = before @ sub @ after)"
  "preorder_children els cs lvl rows \<Longrightarrow>
     \<forall>c\<in>set cs. \<forall>y. (c, y) \<in> (childEdges els)\<^sup>* \<longrightarrow>
       (\<exists>lvl' sub before after. preorder_walk els y lvl' sub \<and> rows = before @ sub @ after)"
proof (induction rule: preorder_walk_preorder_children.inducts)
  case (skip els k lvl)
  show ?case
  proof (intro allI impI)
    fix y assume "(k, y) \<in> (childEdges els)\<^sup>*"
    then have "y = k"
    proof (cases rule: converse_rtranclE)
      case base
      then show ?thesis by simp
    next
      case (step c)
      from step(1) have "els k \<noteq> None" by (rule edge_source_stored)
      with skip show ?thesis by simp
    qed
    with skip have "preorder_walk els y lvl []"
      by (simp add: preorder_walk_preorder_children.skip)
    moreover have "[] = [] @ [] @ ([] :: FlatElement list)" by simp
    ultimately
    show "\<exists>lvl' sub before after. preorder_walk els y lvl' sub \<and> [] = before @ sub @ after"
      by (rule segmentI)
  qed
next
  case (stay els k el lvl)
  let ?rows = "[\<lparr>key = k, element = el, level = lvl\<rparr>]"
  show ?case
  proof (intro allI impI)
    fix y assume "(k, y) \<in> (childEdges els)\<^sup>*"
    then have "y = k"
    proof (cases rule: converse_rtranclE)
      case base
      then show ?thesis by simp
    next
      case (step c)
      from edge_child [OF step(1) stay.hyps(1)] stay.hyps(2) show ?thesis by simp
    qed
    with stay have "preorder_walk els y lvl ?rows"
      by (simp add: preorder_walk_preorder_children.stay)
    moreover have "?rows = [] @ ?rows @ []" by simp
    ultimately show "\<exists>lvl' sub before after. preorder_walk els y lvl' sub
                 \<and> ?rows = before @ sub @ after"
      by (rule segmentI)
  qed
next
  case (descend els k el lvl kids)
  let ?r = "\<lparr>key = k, element = el, level = lvl\<rparr>"
  show ?case
  proof (intro allI impI)
    fix y assume "(k, y) \<in> (childEdges els)\<^sup>*"
    then show "\<exists>lvl' sub before after. preorder_walk els y lvl' sub
                 \<and> ?r # kids = before @ sub @ after"
    proof (cases rule: converse_rtranclE)
      case base
      from descend.hyps have "preorder_walk els k lvl (?r # kids)"
        by (simp add: preorder_walk_preorder_children.descend)
      with base have "preorder_walk els y lvl (?r # kids)" by simp
      moreover have "?r # kids = [] @ (?r # kids) @ []" by simp
      ultimately show ?thesis by (rule segmentI)
    next
      case (step c)
      from edge_child [OF step(1) descend.hyps(1)] have "c \<in> set (the (children el))" by simp
      from descend.IH [rule_format, OF this step(2)] obtain lvl' sub before after where
        sub: "preorder_walk els y lvl' sub" "kids = before @ sub @ after"
        by (elim exE conjE)
      from sub(2) have "?r # kids = (?r # before) @ sub @ after" by simp
      with sub(1) show ?thesis by (rule segmentI)
    qed
  qed
next
  case (done_children els lvl)
  show ?case by simp
next
  case (next_child els c lvl rows1 cs rows2)
  show ?case
  proof (intro ballI allI impI)
    fix c' y
    assume c': "c' \<in> set (c # cs)" and path: "(c', y) \<in> (childEdges els)\<^sup>*"
    show "\<exists>lvl' sub before after. preorder_walk els y lvl' sub
            \<and> rows1 @ rows2 = before @ sub @ after"
    proof (cases "c' = c")
      case True
      with path have "(c, y) \<in> (childEdges els)\<^sup>*" by simp
      from next_child.IH(1) [rule_format, OF this] obtain lvl' sub before after where
        sub: "preorder_walk els y lvl' sub" "rows1 = before @ sub @ after"
        by (elim exE conjE)
      from sub(2) have "rows1 @ rows2 = before @ sub @ (after @ rows2)" by simp
      with sub(1) show ?thesis by (rule segmentI)
    next
      case False
      with c' have "c' \<in> set cs" by simp
      from next_child.IH(2) [rule_format, OF this path] obtain lvl' sub before after where
        sub: "preorder_walk els y lvl' sub" "rows2 = before @ sub @ after"
        by (elim exE conjE)
      from sub(2) have "rows1 @ rows2 = (rows1 @ before) @ sub @ after" by simp
      with sub(1) show ?thesis by (rule segmentI)
    qed
  qed
qed

text \<open>
  Where the traversal from the root exists, the least length of a traversal
  is a rank that falls along every reference met from the root.
\<close>

lemma walk_gives_rank:
  assumes "preorder_walk els r lvl0 rows0"
  shows "\<forall>k c. (r, k) \<in> (childEdges els)\<^sup>* \<and> (k, c) \<in> childEdges els \<longrightarrow>
           (LEAST n. \<exists>lvl rows. preorder_walk els c lvl rows \<and> length rows = n)
           < (LEAST n. \<exists>lvl rows. preorder_walk els k lvl rows \<and> length rows = n)"
proof (intro allI impI, elim conjE)
  fix k c
  assume k: "(r, k) \<in> (childEdges els)\<^sup>*" and edge: "(k, c) \<in> childEdges els"
  let ?size = "\<lambda>k n. \<exists>lvl rows. preorder_walk els k lvl rows \<and> length rows = n"
  from preorder_walk_segment(1) [OF assms, rule_format, OF k] obtain lvl' sub where
    "preorder_walk els k lvl' sub" by (elim exE conjE)
  then have "?size k (length sub)" by blast
  then have "?size k (LEAST n. ?size k n)" by (rule LeastI)
  then obtain lvl rows where walk: "preorder_walk els k lvl rows"
    and size: "length rows = (LEAST n. ?size k n)" by blast
  from edge obtain el where el: "els k = Some el" by (auto simp: childEdges_def)
  from edge_child [OF edge el] have open_node: "expanded el" "hasChildren el"
    and c: "c \<in> set (the (children el))" by simp_all
  from walk obtain kids where rows: "rows = \<lparr>key = k, element = el, level = lvl\<rparr> # kids"
    and kids: "preorder_children els (the (children el)) (lvl + 1) kids"
    using el open_node by (cases rule: preorder_walk.cases) simp_all
  have "(c, c) \<in> (childEdges els)\<^sup>*" by simp
  from preorder_walk_segment(2) [OF kids, rule_format, OF c this]
  obtain lvl1 sub1 before after where
    sub1: "preorder_walk els c lvl1 sub1" "kids = before @ sub1 @ after"
    by (elim exE conjE)
  from sub1(1) have "?size c (length sub1)" by blast
  then have "(LEAST n. ?size c n) \<le> length sub1" by (rule Least_le)
  also from sub1(2) rows have "length sub1 < length rows" by simp
  finally show "(LEAST n. ?size c n) < (LEAST n. ?size k n)" using size by simp
qed

text \<open>
  Two references to a node among those met from the root give two rows with
  its identity.
\<close>

lemma repeated_key:
  assumes "x \<in> key ` set rows1" "x \<in> key ` set rows2"
  shows "\<not> distinct (map key (rows1 @ rows2))"
  using assms by auto

lemma segment_not_distinct:
  assumes "\<not> distinct (map key sub)"
  shows "\<not> distinct (map key (before @ sub @ after))"
  using assms by simp

lemma children_listed_twice:
  "preorder_walk els k lvl rows \<Longrightarrow> True"
  "preorder_children els cs lvl rows \<Longrightarrow>
     \<not> distinct (filter (\<lambda>c. els c \<noteq> None) cs) \<longrightarrow> \<not> distinct (map key rows)"
proof (induction rule: preorder_walk_preorder_children.inducts)
  case (next_child els c lvl rows1 cs rows2)
  show ?case
  proof
    assume twice: "\<not> distinct (filter (\<lambda>c. els c \<noteq> None) (c # cs))"
    show "\<not> distinct (map key (rows1 @ rows2))"
    proof (cases "els c \<noteq> None \<and> c \<in> set cs")
      case True
      with preorder_keys_complete(1) [OF next_child.hyps(1)] have "c \<in> key ` set rows1"
        by blast
      moreover from True preorder_keys_complete(2) [OF next_child.hyps(2)]
      have "c \<in> key ` set rows2" by blast
      ultimately show ?thesis by (rule repeated_key)
    next
      case False
      with twice have "\<not> distinct (filter (\<lambda>c. els c \<noteq> None) cs)"
        by (auto split: if_splits)
      with next_child.IH(2) have "\<not> distinct (map key rows2)" by simp
      then show ?thesis by simp
    qed
  qed
qed simp_all

lemma children_child_of_sibling:
  "preorder_walk els k lvl rows \<Longrightarrow> True"
  "preorder_children els cs lvl rows \<Longrightarrow>
     \<forall>c c2. c \<in> set cs \<and> c2 \<in> set cs \<and> els c \<noteq> None \<and> (c2, c) \<in> (childEdges els)\<^sup>+
             \<and> (c, c) \<notin> (childEdges els)\<^sup>+
       \<longrightarrow> \<not> distinct (map key rows)"
proof (induction rule: preorder_walk_preorder_children.inducts)
  case (next_child els c0 lvl rows1 cs rows2)
  show ?case
  proof (intro allI impI, elim conjE)
    fix c c2
    assume c: "c \<in> set (c0 # cs)" and c2: "c2 \<in> set (c0 # cs)" and stored: "els c \<noteq> None"
      and path: "(c2, c) \<in> (childEdges els)\<^sup>+" and loop: "(c, c) \<notin> (childEdges els)\<^sup>+"
    from path have path': "(c2, c) \<in> (childEdges els)\<^sup>*" by (rule trancl_into_rtrancl)
    from path loop have apart: "c2 \<noteq> c" by auto
    show "\<not> distinct (map key (rows1 @ rows2))"
    proof (cases "c = c0")
      case True
      with apart c2 have "c2 \<in> set cs" by simp
      with preorder_keys_complete(2) [OF next_child.hyps(2)] path' stored
      have "c \<in> key ` set rows2" by blast
      moreover from True preorder_keys_complete(1) [OF next_child.hyps(1)] stored
      have "c \<in> key ` set rows1" by blast
      ultimately show ?thesis by (intro repeated_key)
    next
      case False
      with c have c': "c \<in> set cs" by simp
      show ?thesis
      proof (cases "c2 = c0")
        case True
        with preorder_keys_complete(1) [OF next_child.hyps(1)] path' stored
        have "c \<in> key ` set rows1" by blast
        moreover from c' preorder_keys_complete(2) [OF next_child.hyps(2)] stored
        have "c \<in> key ` set rows2" by blast
        ultimately show ?thesis by (rule repeated_key)
      next
        case False
        with c2 have "c2 \<in> set cs" by simp
        with next_child.IH(2) c' stored path loop have "\<not> distinct (map key rows2)" by blast
        then show ?thesis by simp
      qed
    qed
  qed
qed simp_all

lemma two_parents_twice:
  "preorder_walk els k lvl rows \<Longrightarrow>
     \<forall>k1 k2 c. k1 \<noteq> k2 \<and> (k, k1) \<in> (childEdges els)\<^sup>* \<and> (k, k2) \<in> (childEdges els)\<^sup>*
               \<and> (k1, c) \<in> childEdges els \<and> (k2, c) \<in> childEdges els \<and> els c \<noteq> None
               \<and> (c, c) \<notin> (childEdges els)\<^sup>+
       \<longrightarrow> \<not> distinct (map key rows)"
  "preorder_children els cs lvl rows \<Longrightarrow>
     \<forall>k1 k2 c. k1 \<noteq> k2 \<and> (\<exists>c1\<in>set cs. (c1, k1) \<in> (childEdges els)\<^sup>*)
               \<and> (\<exists>c2\<in>set cs. (c2, k2) \<in> (childEdges els)\<^sup>*)
               \<and> (k1, c) \<in> childEdges els \<and> (k2, c) \<in> childEdges els \<and> els c \<noteq> None
               \<and> (c, c) \<notin> (childEdges els)\<^sup>+
       \<longrightarrow> \<not> distinct (map key rows)"
proof (induction rule: preorder_walk_preorder_children.inducts)
  case (skip els k lvl)
  show ?case
  proof (intro allI impI, elim conjE)
    fix k1 k2 c
    assume "(k, k1) \<in> (childEdges els)\<^sup>*" "(k1, c) \<in> childEdges els"
    from this(2) have "els k1 \<noteq> None" by (rule edge_source_stored)
    with \<open>(k, k1) \<in> (childEdges els)\<^sup>*\<close> have "els k \<noteq> None" by (rule path_stored)
    with skip show "\<not> distinct (map key [])" by simp
  qed
next
  case (stay els k el lvl)
  show ?case
  proof (intro allI impI, elim conjE)
    fix k1 k2 c
    assume path: "(k, k1) \<in> (childEdges els)\<^sup>*" and edge: "(k1, c) \<in> childEdges els"
    from path have "(k, c) \<in> (childEdges els)\<^sup>+" using edge by (rule rtrancl_into_trancl1)
    then obtain c' where "(k, c') \<in> childEdges els" by (auto dest: tranclD)
    from edge_child [OF this stay.hyps(1)] stay.hyps(2)
    show "\<not> distinct (map key [\<lparr>key = k, element = el, level = lvl\<rparr>])" by simp
  qed
next
  case (descend els k el lvl kids)
  let ?cs = "the (children el)"
  have through: "\<exists>c1\<in>set ?cs. (c1, x) \<in> (childEdges els)\<^sup>*"
    if "(k, x) \<in> (childEdges els)\<^sup>*" "x \<noteq> k" for x
    using that
  proof (cases rule: converse_rtranclE)
    case base
    with that(2) show ?thesis by simp
  next
    case (step c1)
    from edge_child [OF step(1) descend.hyps(1)] step(2) show ?thesis by blast
  qed
  have own: "\<not> distinct (map key kids)"
    if x: "(k, x) \<in> (childEdges els)\<^sup>*" "x \<noteq> k" and edges: "(k, c) \<in> childEdges els"
      "(x, c) \<in> childEdges els" and c: "els c \<noteq> None" "(c, c) \<notin> (childEdges els)\<^sup>+" for x c
  proof -
    from edge_child [OF edges(1) descend.hyps(1)] have "c \<in> set ?cs" by simp
    moreover from through [OF x] obtain c2 where c2: "c2 \<in> set ?cs"
      "(c2, x) \<in> (childEdges els)\<^sup>*" by blast
    moreover from c2(2) edges(2) have "(c2, c) \<in> (childEdges els)\<^sup>+"
      by (rule rtrancl_into_trancl1)
    ultimately show ?thesis
      using children_child_of_sibling(2) [OF descend.hyps(4)] c by blast
  qed
  show ?case
  proof (intro allI impI, elim conjE)
    fix k1 k2 c
    assume apart: "k1 \<noteq> k2"
      and p1: "(k, k1) \<in> (childEdges els)\<^sup>*" and p2: "(k, k2) \<in> (childEdges els)\<^sup>*"
      and e1: "(k1, c) \<in> childEdges els" and e2: "(k2, c) \<in> childEdges els"
      and c: "els c \<noteq> None" "(c, c) \<notin> (childEdges els)\<^sup>+"
    have "\<not> distinct (map key kids)"
    proof (cases "k1 = k")
      case True
      with apart have "k2 \<noteq> k" by simp
      from own [OF p2 this _ e2 c] e1 True show ?thesis by simp
    next
      case k1: False
      show ?thesis
      proof (cases "k2 = k")
        case True
        from own [OF p1 k1 _ e1 c] e2 True show ?thesis by simp
      next
        case False
        from through [OF p1 k1] through [OF p2 False] descend.IH apart e1 e2 c
        show ?thesis by blast
      qed
    qed
    then show "\<not> distinct (map key (\<lparr>key = k, element = el, level = lvl\<rparr> # kids))" by simp
  qed
next
  case (done_children els lvl)
  show ?case by simp
next
  case (next_child els c0 lvl rows1 cs rows2)
  show ?case
  proof (intro allI impI, elim conjE bexE)
    fix k1 k2 c c1 c2
    assume apart: "k1 \<noteq> k2"
      and c1: "c1 \<in> set (c0 # cs)" "(c1, k1) \<in> (childEdges els)\<^sup>*"
      and c2: "c2 \<in> set (c0 # cs)" "(c2, k2) \<in> (childEdges els)\<^sup>*"
      and e1: "(k1, c) \<in> childEdges els" and e2: "(k2, c) \<in> childEdges els"
      and c: "els c \<noteq> None" "(c, c) \<notin> (childEdges els)\<^sup>+"
    from c1(2) e1 have r1: "(c1, c) \<in> (childEdges els)\<^sup>*" by (rule rtrancl_into_rtrancl)
    from c2(2) e2 have r2: "(c2, c) \<in> (childEdges els)\<^sup>*" by (rule rtrancl_into_rtrancl)
    show "\<not> distinct (map key (rows1 @ rows2))"
    proof (cases "c1 = c0")
      case first: True
      show ?thesis
      proof (cases "c2 = c0")
        case True
        with first c1(2) c2(2) next_child.IH(1) apart e1 e2 c
        have "\<not> distinct (map key rows1)" by blast
        then show ?thesis by simp
      next
        case False
        with c2(1) have "c2 \<in> set cs" by simp
        with preorder_keys_complete(2) [OF next_child.hyps(2)] r2 c(1)
        have "c \<in> key ` set rows2" by blast
        moreover from first preorder_keys_complete(1) [OF next_child.hyps(1)] r1 c(1)
        have "c \<in> key ` set rows1" by blast
        ultimately show ?thesis by (intro repeated_key)
      qed
    next
      case first: False
      with c1(1) have c1': "c1 \<in> set cs" by simp
      show ?thesis
      proof (cases "c2 = c0")
        case True
        with preorder_keys_complete(1) [OF next_child.hyps(1)] r2 c(1)
        have "c \<in> key ` set rows1" by blast
        moreover from c1' preorder_keys_complete(2) [OF next_child.hyps(2)] r1 c(1)
        have "c \<in> key ` set rows2" by blast
        ultimately show ?thesis by (rule repeated_key)
      next
        case False
        with c2(1) have "c2 \<in> set cs" by simp
        with c1' c1(2) c2(2) next_child.IH(2) apart e1 e2 c
        have "\<not> distinct (map key rows2)" by blast
        then show ?thesis by simp
      qed
    qed
  qed
qed

lemma preorder_walk_returns:
  assumes "preorder_walk (lookup (elements props)) r 1 rows" "root props = Some r"
  shows "\<exists>n. \<forall>m\<ge>n. setProps m props = Some (projection rows)"
proof -
  from seed_complete(1) [OF assms(1)] obtain n where
    "\<forall>m\<ge>n. \<forall>st. seed m (elements props) r 1 st = Some (pushRows st rows)" ..
  with assms(2) have "\<forall>m\<ge>n. setProps m props = Some (projection rows)"
    by (simp add: setProps_def pushRows_initial)
  then show ?thesis ..
qed

lemma setProps_more_fuel:
  "setProps n props = Some st \<Longrightarrow> n \<le> m \<Longrightarrow> setProps m props = Some st"
  by (auto simp: setProps_def split: option.splits intro: seed_more_fuel(1))

lemma reachableFrom_root: "k \<in> reachableFrom els (Some r) \<longleftrightarrow> (r, k) \<in> (childEdges els)\<^sup>*"
  by (simp add: reachableFrom_def)

lemma reachableFrom_none: "reachableFrom els None = {}"
  by (simp add: reachableFrom_def)

lemma returns_iff_acyclic:
  "(\<exists>n st. setProps n props = Some st)
     \<longleftrightarrow> (\<exists>rank. acyclicFrom (lookup (elements props)) (root props) rank)"
proof (cases "root props")
  case None
  then have "setProps 0 props = Some initialState" by (simp add: setProps_def)
  then have "\<exists>n st. setProps n props = Some st" by blast
  moreover from None have "acyclicFrom (lookup (elements props)) (root props) (\<lambda>k. 0 :: nat)"
    by (simp add: acyclicFrom_def reachableFrom_none)
  then have "\<exists>rank. acyclicFrom (lookup (elements props)) (root props) rank"
    by (rule exI [where x = "\<lambda>k. 0"])
  ultimately show ?thesis by simp
next
  case (Some r)
  let ?els = "lookup (elements props)"
  show ?thesis
  proof
    assume "\<exists>n st. setProps n props = Some st"
    then obtain n st where "setProps n props = Some st" by blast
    from setProps_result [OF this] Some obtain rows where "preorder_walk ?els r 1 rows"
      by auto
    from walk_gives_rank [OF this] Some
    have "acyclicFrom ?els (root props)
            (\<lambda>k. LEAST n. \<exists>lvl rows. preorder_walk ?els k lvl rows \<and> length rows = n)"
      by (simp add: acyclicFrom_def reachableFrom_root)
    then show "\<exists>rank. acyclicFrom ?els (root props) rank"
      by (rule exI [where x = "\<lambda>k. LEAST n. \<exists>lvl rows. preorder_walk ?els k lvl rows
                                        \<and> length rows = n"])
  next
    assume "\<exists>rank. acyclicFrom ?els (root props) rank"
    then obtain rank where "acyclicFrom ?els (root props) rank" ..
    with Some have rank: "\<forall>k c. (r, k) \<in> (childEdges ?els)\<^sup>* \<and> (k, c) \<in> childEdges ?els
                     \<longrightarrow> rank c < rank k"
      by (simp add: acyclicFrom_def reachableFrom_root)
    have "(r, r) \<in> (childEdges ?els)\<^sup>*" by simp
    from reach_walk_exists [OF rank this] obtain rows where
      "preorder_walk ?els r 1 rows" ..
    from preorder_walk_returns [OF this Some] obtain n where
      "\<forall>m\<ge>n. setProps m props = Some (projection rows)" ..
    then have "setProps n props = Some (projection rows)" by simp
    then show "\<exists>n st. setProps n props = Some st" by blast
  qed
qed

lemma distinct_iff_single:
  assumes "setProps n props = Some st"
  shows "distinct (flatKeys st) \<longleftrightarrow> singleReferences (lookup (elements props)) (root props)"
proof (cases "root props")
  case None
  with assms have "flatKeys st = []" by (auto simp: setProps_def initialState_def)
  moreover from None have "singleReferences (lookup (elements props)) (root props)"
    by (simp add: singleReferences_def reachableFrom_none)
  ultimately show ?thesis by simp
next
  case (Some r)
  let ?els = "lookup (elements props)"
  let ?E = "childEdges ?els"
  from setProps_result [OF assms] Some obtain rows where
    walk: "preorder_walk ?els r 1 rows" and st: "st = projection rows" by auto
  from st have keys: "flatKeys st = map key rows" by (simp add: projection_def)
  define rank where
    "rank = (\<lambda>k. LEAST n. \<exists>lvl rows. preorder_walk ?els k lvl rows \<and> length rows = n)"
  have rank: "\<forall>k c. (r, k) \<in> ?E\<^sup>* \<and> (k, c) \<in> ?E \<longrightarrow> rank c < rank k"
    unfolding rank_def by (rule walk_gives_rank [OF walk])
  let ?single = "\<forall>k1 k2 c. (r, k1) \<in> ?E\<^sup>* \<and> (r, k2) \<in> ?E\<^sup>*
              \<and> (k1, c) \<in> ?E \<and> (k2, c) \<in> ?E \<and> ?els c \<noteq> None \<longrightarrow> k1 = k2"
  let ?lists = "\<forall>k el. (r, k) \<in> ?E\<^sup>* \<and> ?els k = Some el \<and> expanded el \<and> hasChildren el
            \<longrightarrow> distinct (filter (\<lambda>c. ?els c \<noteq> None) (the (children el)))"
  from Some have unfold: "singleReferences ?els (root props) \<longleftrightarrow> ?lists \<and> ?single"
    by (simp add: singleReferences_def reachableFrom_root)
  have root: "(r, r) \<in> ?E\<^sup>*" by simp
  show ?thesis
  proof
    assume "singleReferences ?els (root props)"
    with unfold have both: "?lists \<and> ?single" by (rule iffD1)
    from both have "?lists" by (rule conjunct1)
    moreover from both have "?single" by (rule conjunct2)
    moreover note rank root
    ultimately have "(\<forall>k c. (r, k) \<in> ?E\<^sup>* \<and> (k, c) \<in> ?E \<longrightarrow> rank c < rank k)
        \<and> ?single \<and> ?lists \<and> (r, r) \<in> ?E\<^sup>*"
      by (intro conjI)
    with single_references_distinct(1) [OF walk, where r = r and rank = rank]
    have "distinct (map key rows)" by (rule mp)
    with keys show "distinct (flatKeys st)" by simp
  next
    assume apart: "distinct (flatKeys st)"
    have "?lists"
    proof (intro allI impI, elim conjE)
      fix k el
      assume k: "(r, k) \<in> ?E\<^sup>*" and el: "?els k = Some el"
        and open_node: "expanded el" "hasChildren el"
      from preorder_walk_segment(1) [OF walk, rule_format, OF k]
      obtain lvl' sub before after where
        sub: "preorder_walk ?els k lvl' sub" "rows = before @ sub @ after"
        by (elim exE conjE)
      from sub(1) obtain kids where kids: "sub = \<lparr>key = k, element = el, level = lvl'\<rparr> # kids"
        "preorder_children ?els (the (children el)) (lvl' + 1) kids"
        using el open_node by (cases rule: preorder_walk.cases) simp_all
      from apart keys sub(2) kids(1) have "distinct (map key kids)" by simp
      with children_listed_twice(2) [OF kids(2)]
      show "distinct (filter (\<lambda>c. ?els c \<noteq> None) (the (children el)))" by auto
    qed
    moreover have "?single"
    proof (intro allI impI, elim conjE)
      fix k1 k2 c
      assume k1: "(r, k1) \<in> ?E\<^sup>*" and k2: "(r, k2) \<in> ?E\<^sup>*"
        and e1: "(k1, c) \<in> ?E" and e2: "(k2, c) \<in> ?E" and c: "?els c \<noteq> None"
      from k1 e1 have rc: "(r, c) \<in> ?E\<^sup>*" by (rule rtrancl_into_rtrancl)
      have loop: "(c, c) \<notin> ?E\<^sup>+"
      proof
        assume "(c, c) \<in> ?E\<^sup>+"
        from rank_below [OF rank rc this] show False by simp
      qed
      show "k1 = k2"
      proof (rule ccontr)
        assume "k1 \<noteq> k2"
        with k1 k2 e1 e2 c loop
        have "k1 \<noteq> k2 \<and> (r, k1) \<in> ?E\<^sup>* \<and> (r, k2) \<in> ?E\<^sup>*
               \<and> (k1, c) \<in> ?E \<and> (k2, c) \<in> ?E \<and> ?els c \<noteq> None \<and> (c, c) \<notin> ?E\<^sup>+"
          by (intro conjI)
        from two_parents_twice(1) [OF walk, rule_format, OF this]
        have "\<not> distinct (map key rows)" .
        with apart keys show False by simp
      qed
    qed
    ultimately have "?lists \<and> ?single" by (rule conjI)
    with unfold show "singleReferences ?els (root props)" by (rule iffD2)
  qed
qed

text \<open>
  Claim C2, amended. The walk keeps no set of visited identities. It returns,
  under some bound on the depth of its recursion and then under every larger
  one, exactly when the child references met from the root admit a rank that
  falls along each of them, which in a finite store says that no cycle among
  expanded nodes is met from the root; a duplicate child reference does not
  keep it from returning. In what it returns, no identity occurs twice among
  the flattened keys exactly when no node is referenced twice among those met
  from the root.
\<close>

theorem flatten_returns_distinct:
  "((\<exists>n st. setProps n props = Some st)
      \<longleftrightarrow> (\<exists>rank. acyclicFrom (lookup (elements props)) (root props) rank))
   \<and> (setProps n props = Some st \<longrightarrow>
        (\<forall>m\<ge>n. setProps m props = Some st)
      \<and> (distinct (flatKeys st)
           \<longleftrightarrow> singleReferences (lookup (elements props)) (root props)))"
proof (intro conjI impI allI)
  show "(\<exists>n st. setProps n props = Some st)
      \<longleftrightarrow> (\<exists>rank. acyclicFrom (lookup (elements props)) (root props) rank)"
    by (rule returns_iff_acyclic)
next
  fix m assume "setProps n props = Some st" "n \<le> m"
  then show "setProps m props = Some st" by (rule setProps_more_fuel)
next
  assume "setProps n props = Some st"
  then show "distinct (flatKeys st)
           \<longleftrightarrow> singleReferences (lookup (elements props)) (root props)"
    by (rule distinct_iff_single)
qed

theorem flatten_returns_distinct_witness:
  "acyclicFrom (lookup (elements duplicateProps)) (root duplicateProps) duplicateRank
   \<and> (\<exists>n st. setProps n duplicateProps = Some st)
   \<and> setProps 2 duplicateProps = Some (projection duplicateRows)
   \<and> \<not> singleReferences (lookup (elements duplicateProps)) (root duplicateProps)
   \<and> setProps 3 (exampleProps None) = Some (projection exampleRows)
   \<and> setProps 4 (exampleProps None) = Some (projection exampleRows)
   \<and> distinct (flatKeys (projection exampleRows))
   \<and> singleReferences (lookup (elements (exampleProps None))) (root (exampleProps None))"
proof -
  have edges: "childEdges (lookup (elements duplicateProps)) = {(''A'', ''B'')}"
    unfolding childEdges_lookup
    by (auto simp: childEdges_def duplicateProps_def node_def hasChildren_def split: if_splits)
  have acyclic: "acyclicFrom (lookup (elements duplicateProps)) (root duplicateProps)
                   duplicateRank"
    by (simp add: acyclicFrom_def edges duplicateRank_def)
  have dup: "setProps 2 duplicateProps = Some (projection duplicateRows)"
    by code_simp
  have twice: "\<not> distinct (flatKeys (projection duplicateRows))"
    by (simp add: projection_def duplicateRows_def)
  have flat: "setProps 3 (exampleProps None) = Some (projection exampleRows)"
    by code_simp
  have once: "distinct (flatKeys (projection exampleRows))"
    by (simp add: projection_def exampleRows_def)
  note dupl = flatten_returns_distinct [of duplicateProps 2 "projection duplicateRows"]
  note exam = flatten_returns_distinct [of "exampleProps None" 3 "projection exampleRows"]
  from acyclic
  have "\<exists>rank. acyclicFrom (lookup (elements duplicateProps)) (root duplicateProps) rank"
    by (intro exI)
  with dupl [THEN conjunct1] have returns: "\<exists>n st. setProps n duplicateProps = Some st"
    by (rule iffD2)
  from dupl [THEN conjunct2, THEN mp, OF dup, THEN conjunct2] twice
  have repeated: "\<not> singleReferences (lookup (elements duplicateProps)) (root duplicateProps)"
    by simp
  from exam [THEN conjunct2, THEN mp, OF flat, THEN conjunct1]
  have more: "setProps 4 (exampleProps None) = Some (projection exampleRows)"
    by simp
  from exam [THEN conjunct2, THEN mp, OF flat, THEN conjunct2] once
  have single: "singleReferences (lookup (elements (exampleProps None)))
                  (root (exampleProps None))"
    by simp
  from acyclic returns dup repeated flat more once single show ?thesis
    by (intro conjI)
qed

text \<open>
  Claim C2, as stated, fails on a duplicate child reference: \<open>A\<close> is expanded
  and lists \<open>B\<close> twice, and \<open>B\<close> is flattened twice.
\<close>

theorem flatten_duplicate_child:
  "setProps 2 duplicateProps = Some (projection duplicateRows)
   \<and> flatKeys (projection duplicateRows) = [''A'', ''B'', ''B'']
   \<and> \<not> distinct (flatKeys (projection duplicateRows))"
proof -
  have "setProps 2 duplicateProps = Some (projection duplicateRows)"
    by code_simp
  moreover have "flatKeys (projection duplicateRows) = [''A'', ''B'', ''B'']"
    by (simp add: projection_def duplicateRows_def)
  ultimately show ?thesis by simp
qed

text \<open>
  On a cycle among expanded nodes the walk returns under no bound on the depth
  of its recursion: \<open>A\<close> is expanded and lists itself.
\<close>

lemma seed_cycle_never_returns:
  "seed n [''A'' \<mapsto> node ''A'' True [''A'']] ''A'' lvl st = None"
proof (induction n arbitrary: lvl st)
  case 0
  show ?case by simp
next
  case (Suc n)
  then show ?case by (simp add: node_def lookup_def)
qed

lemma flatten_cycle_never_returns: "setProps n cyclicProps = None"
  by (simp add: setProps_def cyclicProps_def seed_cycle_never_returns del: seed.simps)

section \<open>Parents and children among the rows\<close>


section \<open>The flattened sequence is the pre-order traversal\<close>





section \<open>Strings and highlighting\<close>

lemma str_includes_iff:
  "str_includes s sub \<longleftrightarrow> (\<exists>i. take (length sub) (drop i s) = sub)"
proof (induction s)
  case Nil
  then show ?case by auto
next
  case (Cons c cs)
  have "(\<exists>i. take (length sub) (drop i (c # cs)) = sub) \<longleftrightarrow>
        take (length sub) (c # cs) = sub \<or> (\<exists>i. take (length sub) (drop i cs) = sub)"
  proof
    assume "\<exists>i. take (length sub) (drop i (c # cs)) = sub"
    then obtain i where i: "take (length sub) (drop i (c # cs)) = sub" ..
    show "take (length sub) (c # cs) = sub \<or> (\<exists>i. take (length sub) (drop i cs) = sub)"
    proof (cases i)
      case 0
      with i show ?thesis by simp
    next
      case (Suc j)
      with i have "take (length sub) (drop j cs) = sub" by simp
      then show ?thesis by blast
    qed
  next
    assume "take (length sub) (c # cs) = sub \<or> (\<exists>i. take (length sub) (drop i cs) = sub)"
    then show "\<exists>i. take (length sub) (drop i (c # cs)) = sub"
    proof
      assume "take (length sub) (c # cs) = sub"
      then have "take (length sub) (drop 0 (c # cs)) = sub" by simp
      then show ?thesis ..
    next
      assume "\<exists>i. take (length sub) (drop i cs) = sub"
      then obtain i where "take (length sub) (drop i cs) = sub" ..
      then have "take (length sub) (drop (Suc i) (c # cs)) = sub" by simp
      then show ?thesis ..
    qed
  qed
  with Cons.IH show ?case by simp
qed

lemma take_eq_length: "take (length sub) s = sub \<Longrightarrow> length sub \<le> length s"
proof -
  assume "take (length sub) s = sub"
  then have "length (take (length sub) s) = length sub" by simp
  then show ?thesis by simp
qed

lemma str_indexOf_first:
  "str_includes s sub \<Longrightarrow>
     0 \<le> str_indexOf s sub
     \<and> take (length sub) (drop (nat (str_indexOf s sub)) s) = sub
     \<and> nat (str_indexOf s sub) + length sub \<le> length s
     \<and> (\<forall>j<nat (str_indexOf s sub). take (length sub) (drop j s) \<noteq> sub)"
proof (induction s)
  case Nil
  then show ?case by simp
next
  case (Cons c cs)
  show ?case
  proof (cases "take (length sub) (c # cs) = sub")
    case True
    from take_eq_length [OF True] True show ?thesis by simp
  next
    case False
    with Cons.prems have "str_includes cs sub" by simp
    from Cons.IH [OF this] have ih:
      "0 \<le> str_indexOf cs sub"
      "take (length sub) (drop (nat (str_indexOf cs sub)) cs) = sub"
      "nat (str_indexOf cs sub) + length sub \<le> length cs"
      "\<forall>j<nat (str_indexOf cs sub). take (length sub) (drop j cs) \<noteq> sub"
      by simp_all
    from ih(1) False have idx: "str_indexOf (c # cs) sub = str_indexOf cs sub + 1"
      by (simp add: Let_def)
    from ih(1) have suc: "nat (str_indexOf cs sub + 1) = Suc (nat (str_indexOf cs sub))"
      by simp
    have "take (length sub) (drop j (c # cs)) \<noteq> sub" if "j < Suc (nat (str_indexOf cs sub))" for j
    proof (cases j)
      case 0
      with False show ?thesis by simp
    next
      case (Suc j')
      with that ih(4) show ?thesis by simp
    qed
    with ih show ?thesis unfolding idx suc by simp
  qed
qed

lemma substring_prefix: "0 \<le> a \<Longrightarrow> nat a \<le> length s \<Longrightarrow> substring s 0 a = take (nat a) s"
  by (simp add: substring_def clampIndex_def Let_def)

lemma substring_middle:
  "0 \<le> a \<Longrightarrow> nat a + n \<le> length s \<Longrightarrow>
     substring s a (a + int n) = take n (drop (nat a) s)"
  by (simp add: substring_def clampIndex_def Let_def nat_add_distrib)

lemma substringFrom_suffix:
  "0 \<le> a \<Longrightarrow> substringFrom s (a + int n) = drop n (drop (nat a) s)"
  by (simp add: substringFrom_def clampIndex_def nat_add_distrib add.commute min_def)

lemma substring_concat:
  assumes "0 \<le> a" "a \<le> b"
  shows "substring s 0 a @ substring s a b @ substringFrom s b = s"
proof -
  let ?x = "clampIndex a (length s)" and ?y = "clampIndex b (length s)"
  from assms have le: "?x \<le> ?y" by (simp add: clampIndex_def)
  have "take ?x s @ take (?y - ?x) (drop ?x s) @ drop (?y - ?x) (drop ?x s) = s"
    by (simp only: append_take_drop_id)
  moreover from le have "drop (?y - ?x) (drop ?x s) = drop ?y s" by simp
  ultimately have "take ?x s @ take (?y - ?x) (drop ?x s) @ drop ?y s = s" by simp
  with le show ?thesis
    by (simp add: substring_def substringFrom_def Let_def clampIndex_def min_absorb1 max_absorb2)
qed

lemma PartialHighlight_whole:
  "highlighted = None \<or> highlighted = Some []
     \<or> (\<exists>h. highlighted = Some h \<and> \<not> str_includes (toLowerCase content) (toLowerCase h))
   \<Longrightarrow> PartialHighlight_render toLowerCase highlighted content = Whole content"
  by (auto simp: PartialHighlight_render_def)

text \<open>
  The three segments always concatenate back to the content, whatever
  \<^verbatim>\<open>toLowerCase\<close> does.
\<close>

lemma PartialHighlight_concat:
  assumes "PartialHighlight_render toLowerCase highlighted content = Highlighted before match after"
  shows "before @ match @ after = content"
proof -
  from assms obtain h where h: "highlighted = Some h"
    and inc: "str_includes (toLowerCase content) (toLowerCase h)"
    and parts: "before = substring content 0 (str_indexOf (toLowerCase content) (toLowerCase h))"
      "match = substring content (str_indexOf (toLowerCase content) (toLowerCase h))
                 (str_indexOf (toLowerCase content) (toLowerCase h) + int (length h))"
      "after = substringFrom content
                 (str_indexOf (toLowerCase content) (toLowerCase h) + int (length h))"
    by (auto simp: PartialHighlight_render_def Let_def split: option.splits if_splits)
  from str_indexOf_first [OF inc] have "0 \<le> str_indexOf (toLowerCase content) (toLowerCase h)"
    by simp
  with parts show ?thesis by (simp add: substring_concat)
qed

text \<open>
  Where \<^verbatim>\<open>toLowerCase\<close> works unit by unit, as it does on every text without the
  capital I with a dot above, final sigmas and surrogate pairs, the middle
  segment is the first occurrence of the query, letter case apart.
\<close>

lemma PartialHighlight_unitwise:
  assumes unitwise: "\<And>s. toLowerCase s = map f s"
    and h: "h \<noteq> []"
    and occurs: "\<exists>i. take (length h) (drop i (toLowerCase content)) = toLowerCase h"
  shows "\<exists>before match after.
          PartialHighlight_render toLowerCase (Some h) content = Highlighted before match after
        \<and> before @ match @ after = content
        \<and> length match = length h
        \<and> toLowerCase match = toLowerCase h
        \<and> (\<forall>j<length before.
              take (length h) (drop j (toLowerCase content)) \<noteq> toLowerCase h)"
proof -
  have len: "length (toLowerCase s) = length s" for s by (simp add: unitwise)
  from occurs have inc: "str_includes (toLowerCase content) (toLowerCase h)"
    by (simp add: str_includes_iff len)
  let ?i = "str_indexOf (toLowerCase content) (toLowerCase h)"
  let ?before = "take (nat ?i) content"
  let ?match = "take (length h) (drop (nat ?i) content)"
  let ?after = "drop (length h) (drop (nat ?i) content)"
  from str_indexOf_first [OF inc]
  have pos: "0 \<le> ?i"
    and at: "take (length h) (drop (nat ?i) (toLowerCase content)) = toLowerCase h"
    and fits: "nat ?i + length h \<le> length content"
    and first: "\<forall>j<nat ?i. take (length h) (drop j (toLowerCase content)) \<noteq> toLowerCase h"
    by (simp_all add: len)
  from fits have inside: "nat ?i \<le> length content" by simp
  from fits h have "truthy content" by (auto simp: truthy_def)
  with h inc
  have render: "PartialHighlight_render toLowerCase (Some h) content
                  = Highlighted ?before ?match ?after"
    by (simp add: PartialHighlight_render_def Let_def substring_prefix [OF pos inside]
          substring_middle [OF pos fits] substringFrom_suffix [OF pos])
  have whole: "?before @ ?match @ ?after = content"
    by (simp only: append_take_drop_id)
  from fits have size: "length ?match = length h" by simp
  from at have same: "toLowerCase ?match = toLowerCase h"
    by (simp add: unitwise take_map drop_map)
  from inside have "length ?before = nat ?i" by simp
  with first have "\<forall>j<length ?before.
      take (length h) (drop j (toLowerCase content)) \<noteq> toLowerCase h" by simp
  with render whole size same show ?thesis by blast
qed

text \<open>
  Claim C10, at a content that holds the capital I with a dot above before the
  occurrence. Its lower case is two units long, so the index found in the
  lower-cased content lies one unit further than the occurrence in the
  content: the content \<open>[304, 120]\<close> with the query \<open>[120]\<close> is cut into itself,
  an empty middle segment and an empty rest, where the query is one unit long
  and occurs at index 1.
\<close>

theorem highlight_after_dotted_capital_I:
  "lowerCase [304, 120] = [105, 775, 120]
   \<and> lowerCase [120] = [120]
   \<and> str_indexOf (lowerCase [304, 120]) (lowerCase [120]) = 2
   \<and> PartialHighlight_render lowerCase (Some [120]) [304, 120] = Highlighted [304, 120] [] []"
proof -
  have "lowerCase [304, 120] = [105, 775, 120]" by code_simp
  moreover have "lowerCase [120] = [120]" by code_simp
  moreover have "str_indexOf (lowerCase [304, 120]) (lowerCase [120]) = 2" by code_simp
  moreover have "PartialHighlight_render lowerCase (Some [120]) [304, 120]
                   = Highlighted [304, 120] [] []" by code_simp
  ultimately show ?thesis by simp
qed

text \<open>The same for any function that lower-cases the two texts as the built-in does.\<close>

lemma highlight_shifted:
  assumes "toLowerCase [304, 120] = [105, 775, 120]" "toLowerCase [120] = [120]"
  shows "PartialHighlight_render toLowerCase (Some [120]) [304, 120] = Highlighted [304, 120] [] []"
  using assms
  by (simp add: PartialHighlight_render_def truthy_def Let_def substring_def substringFrom_def
        clampIndex_def)

lemma highlight_example:
  "PartialHighlight_render lowerCase (Some (utf16 ''WORLD'')) (utf16 ''Hello World'')
     = Highlighted (utf16 ''Hello '') (utf16 ''World'') []"
  by code_simp

lemma ElementsRowAttribute_render_cases:
  "ElementsRowAttribute_render toLowerCase nm v mq =
     (nm, if nm = ''id'' \<or> nm = ''addr'' then PartialHighlight_render toLowerCase mq v
          else Whole v)"
  by (simp add: ElementsRowAttribute_render_def PartialHighlight_render_def)

text \<open>
  Which texts of a row meet the query. For a row whose node is in the match
  set of the search results, \<^verbatim>\<open>PartialHighlight\<close> is given the query for the
  node's name and for the values of the attributes named \<open>id\<close> or \<open>addr\<close>; the
  value of any other attribute is rendered in one piece whatever it contains.
\<close>

lemma highlight_routing:
  assumes "searchResults props = Some sr" "key row \<in> matches sr"
  shows "view_name (ElementsRow_render toLowerCase (buildRow props st row index)) =
           PartialHighlight_render toLowerCase (query sr) (name (element row))
       \<and> view_attributes (ElementsRow_render toLowerCase (buildRow props st row index)) =
           map (\<lambda>attr. (attr_name attr,
                         if attr_name attr = ''id'' \<or> attr_name attr = ''addr''
                         then PartialHighlight_render toLowerCase (query sr) (attr_value attr)
                         else Whole (attr_value attr)))
               (case attributes (element row) of None \<Rightarrow> [] | Some attrs \<Rightarrow> attrs)"
proof -
  let ?rp = "buildRow props st row index"
  from assms have mq: "row_matchingSearchQuery ?rp = query sr"
    by (simp add: buildRow_def containsKeyInSearchResults_def)
  have el: "row_element ?rp = element row" by (simp add: buildRow_def)
  have nm: "view_name (ElementsRow_render toLowerCase ?rp) =
              PartialHighlight_render toLowerCase (query sr) (name (element row))"
    by (simp add: ElementsRow_render_def mq el)
  have attrs: "view_attributes (ElementsRow_render toLowerCase ?rp) =
           map (\<lambda>attr. (attr_name attr,
                         if attr_name attr = ''id'' \<or> attr_name attr = ''addr''
                         then PartialHighlight_render toLowerCase (query sr) (attr_value attr)
                         else Whole (attr_value attr)))
               (case attributes (element row) of None \<Rightarrow> [] | Some attrs \<Rightarrow> attrs)"
    by (simp add: ElementsRow_render_def mq el ElementsRowAttribute_render_cases
          split: option.splits)
  from nm attrs show ?thesis by (rule conjI)
qed

text \<open>
  Without search results, with a null or empty query, or for a row whose node
  is not in the match set, the name and every attribute value of the row are
  rendered in one piece.
\<close>

lemma highlight_off:
  assumes "searchResults props = None
           \<or> (\<exists>sr. searchResults props = Some sr
                \<and> (key row \<notin> matches sr \<or> query sr = None \<or> query sr = Some []))"
  shows "view_name (ElementsRow_render toLowerCase (buildRow props st row index)) =
           Whole (name (element row))
       \<and> view_attributes (ElementsRow_render toLowerCase (buildRow props st row index)) =
           map (\<lambda>attr. (attr_name attr, Whole (attr_value attr)))
               (case attributes (element row) of None \<Rightarrow> [] | Some attrs \<Rightarrow> attrs)"
proof -
  let ?rp = "buildRow props st row index"
  from assms have mq: "row_matchingSearchQuery ?rp = None \<or> row_matchingSearchQuery ?rp = Some []"
    by (auto simp: buildRow_def containsKeyInSearchResults_def)
  have el: "row_element ?rp = element row" by (simp add: buildRow_def)
  have off: "PartialHighlight_render toLowerCase None content = Whole content"
    "PartialHighlight_render toLowerCase (Some []) content = Whole content" for content
    by (simp_all add: PartialHighlight_render_def)
  from mq show ?thesis
  proof
    assume "row_matchingSearchQuery ?rp = None"
    then show ?thesis
      by (simp add: ElementsRow_render_def el ElementsRowAttribute_render_cases off
            split: option.splits)
  next
    assume "row_matchingSearchQuery ?rp = Some []"
    then show ?thesis
      by (simp add: ElementsRow_render_def el ElementsRowAttribute_render_cases off
            split: option.splits)
  qed
qed

lemma highlight_button_example:
  "view_name (ElementsRow_render lowerCase
        (buildRow searchProps (projection [searchRow]) searchRow 0))
       = Highlighted [] (utf16 ''Bu'') (utf16 ''tton'')
   \<and> view_attributes (ElementsRow_render lowerCase
        (buildRow searchProps (projection [searchRow]) searchRow 0))
       = [(''id'', Highlighted (utf16 ''submit_'') (utf16 ''BU'') (utf16 ''tton'')),
          (''class'', Whole (utf16 ''bubble''))]"
proof -
  have sr: "searchResults searchProps
              = Some \<lparr>query = Some (utf16 ''Bu''), matches = {''n1''}\<rparr>"
    by (simp add: searchProps_def)
  have mem: "key searchRow \<in> matches \<lparr>query = Some (utf16 ''Bu''), matches = {''n1''}\<rparr>"
    by (simp add: searchRow_def)
  have nm: "PartialHighlight_render lowerCase (Some (utf16 ''Bu'')) (utf16 ''Button'')
              = Highlighted [] (utf16 ''Bu'') (utf16 ''tton'')"
    by code_simp
  have idv: "PartialHighlight_render lowerCase (Some (utf16 ''Bu'')) (utf16 ''submit_BUtton'')
               = Highlighted (utf16 ''submit_'') (utf16 ''BU'') (utf16 ''tton'')"
    by code_simp
  from highlight_routing [OF sr mem, of lowerCase "projection [searchRow]" 0] nm idv
  show ?thesis
    by (simp add: searchRow_def searchNode_def)
qed

text \<open>
  Claim C8, at a matching row whose name and whose attribute \<open>id\<close> hold the
  capital I with a dot above before the occurrence of the query. The node is
  in the match set, and the query \<open>x\<close> occurs in the name and in the value of
  \<open>id\<close>, both \<open>[304, 120]\<close>, at index 1. Yet neither is highlighted at the
  occurrence: each is cut into itself, an empty middle segment and an empty
  rest, because the index is taken in the lower-cased text, which is one unit
  longer.
\<close>

theorem highlight_matched_dotted_capital_I:
  "setProps 1 dottedProps = Some (projection [dottedRow])
   \<and> containsKeyInSearchResults (searchResults dottedProps) (key dottedRow)
   \<and> row_matchingSearchQuery (buildRow dottedProps (projection [dottedRow]) dottedRow 0)
       = Some [120]
   \<and> name (element dottedRow) = [304, 120]
   \<and> drop 1 (name (element dottedRow)) = [120]
   \<and> view_name (ElementsRow_render lowerCase
        (buildRow dottedProps (projection [dottedRow]) dottedRow 0))
       = Highlighted [304, 120] [] []
   \<and> view_attributes (ElementsRow_render lowerCase
        (buildRow dottedProps (projection [dottedRow]) dottedRow 0))
       = [(''id'', Highlighted [304, 120] [] [])]"
proof -
  have flat: "setProps 1 dottedProps = Some (projection [dottedRow])"
    by code_simp
  have sr: "searchResults dottedProps = Some \<lparr>query = Some [120], matches = {''n1''}\<rparr>"
    by (simp add: dottedProps_def)
  have mem: "key dottedRow \<in> matches \<lparr>query = Some [120], matches = {''n1''}\<rparr>"
    by (simp add: dottedRow_def)
  from sr mem have found: "containsKeyInSearchResults (searchResults dottedProps) (key dottedRow)"
    by (simp add: containsKeyInSearchResults_def)
  with sr have passed:
    "row_matchingSearchQuery (buildRow dottedProps (projection [dottedRow]) dottedRow 0)
       = Some [120]"
    by (simp add: buildRow_def)
  have nm: "name (element dottedRow) = [304, 120]" "drop 1 (name (element dottedRow)) = [120]"
    by (simp_all add: dottedRow_def dottedNode_def)
  have cut: "PartialHighlight_render lowerCase (Some [120]) [304, 120]
               = Highlighted [304, 120] [] []"
    by code_simp
  have el: "row_element (buildRow dottedProps (projection [dottedRow]) dottedRow 0) = dottedNode"
    by (simp add: buildRow_def dottedRow_def)
  have shown: "view_name (ElementsRow_render lowerCase
        (buildRow dottedProps (projection [dottedRow]) dottedRow 0))
       = Highlighted [304, 120] [] []"
    by (simp add: ElementsRow_render_def passed el dottedNode_def cut)
  have attrs: "view_attributes (ElementsRow_render lowerCase
        (buildRow dottedProps (projection [dottedRow]) dottedRow 0))
       = [(''id'', Highlighted [304, 120] [] [])]"
    by (simp add: ElementsRow_render_def passed el dottedNode_def cut
          ElementsRowAttribute_render_cases)
  from flat found passed nm shown attrs show ?thesis by (intro conjI)
qed

end
